theory Spec2Isabelle
  imports Main "HOL-Library.AList" "HOL-Library.Multiset"
begin

section \<open>Python values, objects and the object store\<close>

text \<open>
  The traversal of \<^verbatim>\<open>IFCExtractor.extract_ifc_types\<close> probes arbitrary Python objects
  with \<^verbatim>\<open>hasattr\<close>, \<^verbatim>\<open>getattr\<close> and \<^verbatim>\<open>__dict__\<close>. Objects are mutable and may be
  shared or cyclic, so they live in a store and are referred to by address
  (\<open>PRef\<close>); the other values are immutable data. An address that the store
  does not bind stands for an object without an instance dictionary.
  Not modelled: floats and booleans, dictionaries and sets, and classes that
  override truth value, equality, hashing or iteration.
\<close>

type_synonym addr = nat

datatype pyval =
    PNone
  | PInt int
  | PStr string
  | PList "pyval list"
  | PTuple "pyval list"
  | PRef addr

text \<open>
  An object: its instance dictionary \<^verbatim>\<open>__dict__\<close> in insertion order, and the
  attributes it inherits from its class (where specklepy keeps \<^verbatim>\<open>speckle_type\<close>
  of a registered type).
\<close>

record pyobj =
  inst_dict :: "(string \<times> pyval) list"
  class_attrs :: "(string \<times> pyval) list"

type_synonym heap = "addr \<rightharpoonup> pyobj"

datatype py_error = TypeError

text \<open>Attribute lookup: the instance dictionary first, then the class.\<close>

definition py_getattr :: "pyobj \<Rightarrow> string \<Rightarrow> pyval option" where
  "py_getattr obj name =
     (case map_of (inst_dict obj) name of
        Some v \<Rightarrow> Some v
      | None \<Rightarrow> map_of (class_attrs obj) name)"

definition getattr_default :: "pyobj \<Rightarrow> string \<Rightarrow> pyval \<Rightarrow> pyval" where
  "getattr_default obj name dflt =
     (case py_getattr obj name of Some v \<Rightarrow> v | None \<Rightarrow> dflt)"

text \<open>\<^verbatim>\<open>hasattr(v, '__dict__')\<close>.\<close>

fun has_dict :: "heap \<Rightarrow> pyval \<Rightarrow> bool" where
  "has_dict h (PRef a) = (h a \<noteq> None)"
| "has_dict h v = False"

text \<open>Truth value of a Python value, as \<^verbatim>\<open>if\<close> and \<^verbatim>\<open>and\<close> test it.\<close>

fun truthy :: "pyval \<Rightarrow> bool" where
  "truthy PNone = False"
| "truthy (PInt i) = (i \<noteq> 0)"
| "truthy (PStr s) = (s \<noteq> [])"
| "truthy (PList xs) = (xs \<noteq> [])"
| "truthy (PTuple xs) = (xs \<noteq> [])"
| "truthy (PRef a) = True"

text \<open>A dictionary key must be hashable: a list is not, a tuple is when its items are.\<close>

fun hashable :: "pyval \<Rightarrow> bool" where
  "hashable (PList xs) = False"
| "hashable (PTuple xs) = list_all hashable xs"
| "hashable v = True"

text \<open>\<^verbatim>\<open>for x in v\<close>: the items, or a TypeError when the value is not iterable.\<close>

fun py_iter :: "pyval \<Rightarrow> py_error + pyval list" where
  "py_iter (PList xs) = Inr xs"
| "py_iter (PTuple xs) = Inr xs"
| "py_iter (PStr s) = Inr (map (\<lambda>c. PStr [c]) s)"
| "py_iter v = Inl TypeError"

text \<open>\<^verbatim>\<open>isinstance(v, list)\<close> and the items of a list.\<close>

fun is_list :: "pyval \<Rightarrow> bool" where
  "is_list (PList xs) = True"
| "is_list v = False"

fun list_items :: "pyval \<Rightarrow> pyval list" where
  "list_items (PList xs) = xs"
| "list_items v = []"

text \<open>\<^verbatim>\<open>name.startswith('_')\<close>.\<close>

fun starts_underscore :: "string \<Rightarrow> bool" where
  "starts_underscore [] = False"
| "starts_underscore (c # cs) = (c = CHR ''_'')"

section \<open>The aggregation\<close>

text \<open>
  \<^verbatim>\<open>instance_info\<close> and the per-type entry \<^verbatim>\<open>{'count': ..., 'instances': [...]}\<close>.
  The aggregation \<^verbatim>\<open>ifc_types\<close> is a Python dict, which keeps its keys in
  insertion order: an association list with a new key added at the end.
\<close>

record instance_info =
  GlobalId :: pyval
  Name :: pyval
  ObjectType :: pyval
  Tag :: pyval

record bucket =
  count :: int
  instances :: "instance_info list"

type_synonym agg = "(pyval \<times> bucket) list"

definition instance_info_of :: "pyobj \<Rightarrow> instance_info" where
  "instance_info_of data =
     \<lparr> GlobalId = getattr_default data ''GlobalId'' (PStr ''Unknown''),
       Name = getattr_default data ''Name'' (PStr ''Unknown''),
       ObjectType = getattr_default data ''ObjectType'' (PStr ''Unknown''),
       Tag = getattr_default data ''Tag'' (PStr ''Unknown'') \<rparr>"

text \<open>
  Lines 149 to 169 of \<^verbatim>\<open>extract_ifc_types\<close>: the classification of one object.
  The membership test \<^verbatim>\<open>ifc_type not in ifc_types\<close> raises TypeError on an
  unhashable discriminator.
\<close>

definition classify :: "pyobj \<Rightarrow> agg \<Rightarrow> py_error + agg" where
  "classify data ifc_types =
     (case py_getattr data ''speckle_type'' of
        None \<Rightarrow> Inr ifc_types
      | Some ifc_type \<Rightarrow>
          if \<not> truthy ifc_type then Inr ifc_types
          else if ifc_type = PStr ''Objects.Geometry.Mesh'' then Inr ifc_types
          else if \<not> hashable ifc_type then Inl TypeError
          else
            let t1 = (if map_of ifc_types ifc_type = None
                      then ifc_types @ [(ifc_type, \<lparr> count = 0, instances = [] \<rparr>)]
                      else ifc_types);
                t2 = AList.map_entry ifc_type (\<lambda>b. b\<lparr> count := count b + 1 \<rparr>) t1;
                t3 = AList.map_entry ifc_type
                       (\<lambda>b. b\<lparr> instances := instances b @ [instance_info_of data] \<rparr>) t2
            in Inr t3)"

section \<open>The traversal\<close>

text \<open>
  \<^verbatim>\<open>extract_ifc_types(data, ifc_types, max_depth, current_depth)\<close>, with the
  aggregation passed in and returned (the source mutates it in place).
  \<open>extract_each\<close> is a \<^verbatim>\<open>for\<close> loop that calls the traversal on every item;
  \<open>extract_collections\<close> is the loop over \<^verbatim>\<open>data.__dict__.items()\<close>.
  An exception leaves every loop, so the first \<open>Inl\<close> is the result.
\<close>

function extract_ifc_types :: "heap \<Rightarrow> pyval \<Rightarrow> agg \<Rightarrow> int \<Rightarrow> int \<Rightarrow> py_error + agg"
  and extract_each :: "heap \<Rightarrow> pyval list \<Rightarrow> agg \<Rightarrow> int \<Rightarrow> int \<Rightarrow> py_error + agg"
  and extract_collections ::
    "heap \<Rightarrow> (string \<times> pyval) list \<Rightarrow> agg \<Rightarrow> int \<Rightarrow> int \<Rightarrow> py_error + agg"
where
  "extract_ifc_types h data ifc_types max_depth current_depth =
     (if current_depth > max_depth then Inr ifc_types
      else case data of
        PRef a \<Rightarrow>
          (case h a of
             None \<Rightarrow> Inr ifc_types
           | Some obj \<Rightarrow>
               (case classify obj ifc_types of
                  Inl e \<Rightarrow> Inl e
                | Inr t1 \<Rightarrow>
                    (case (case py_getattr obj ''elements'' of
                             None \<Rightarrow> Inr t1
                           | Some elements \<Rightarrow>
                               if truthy elements then
                                 (case py_iter elements of
                                    Inl e \<Rightarrow> Inl e
                                  | Inr items \<Rightarrow>
                                      extract_each h items t1 max_depth (current_depth + 1))
                               else Inr t1) of
                       Inl e \<Rightarrow> Inl e
                     | Inr t2 \<Rightarrow>
                         extract_collections h (inst_dict obj) t2 max_depth
                           (current_depth + 1))))
      | _ \<Rightarrow> Inr ifc_types)"
| "extract_each h [] ifc_types max_depth depth = Inr ifc_types"
| "extract_each h (element # rest) ifc_types max_depth depth =
     (case extract_ifc_types h element ifc_types max_depth depth of
        Inl e \<Rightarrow> Inl e
      | Inr t1 \<Rightarrow> extract_each h rest t1 max_depth depth)"
| "extract_collections h [] ifc_types max_depth depth = Inr ifc_types"
| "extract_collections h ((attr_name, attr_value) # rest) ifc_types max_depth depth =
     (if \<not> starts_underscore attr_name \<and> is_list attr_value then
        (case extract_each h (filter (has_dict h) (list_items attr_value)) ifc_types
                max_depth depth of
           Inl e \<Rightarrow> Inl e
         | Inr t1 \<Rightarrow> extract_collections h rest t1 max_depth depth)
      else extract_collections h rest ifc_types max_depth depth)"
  by pat_completeness auto
termination
  by (relation "inv_image (less_than <*lex*> less_than <*lex*> less_than)
        (\<lambda>x. case x of
           Inl (h, data, t, m, d) \<Rightarrow> (nat (m + 1 - d), 0::nat, 0::nat)
         | Inr (Inl (h, xs, t, m, d)) \<Rightarrow> (nat (m + 1 - d), 1, length xs)
         | Inr (Inr (h, kvs, t, m, d)) \<Rightarrow> (nat (m + 1 - d), 2, length kvs))") auto

declare extract_ifc_types.simps [simp del]

text \<open>
  The parameter defaults of line 139: \<^verbatim>\<open>ifc_types=None\<close> is replaced by a new
  empty dict on entry, \<^verbatim>\<open>max_depth=10\<close>, \<^verbatim>\<open>current_depth=0\<close>.
\<close>

definition extract_ifc_types_call ::
  "heap \<Rightarrow> pyval \<Rightarrow> agg option \<Rightarrow> int \<Rightarrow> int \<Rightarrow> py_error + agg" where
  "extract_ifc_types_call h data ifc_types max_depth current_depth =
     extract_ifc_types h data (case ifc_types of None \<Rightarrow> [] | Some t \<Rightarrow> t)
       max_depth current_depth"


section \<open>The end-to-end scenario\<close>

text \<open>
  The graph of the scenario: a root whose \<^verbatim>\<open>elements\<close> are a Wall \<^verbatim>\<open>g1\<close>, a mesh
  and a Door \<^verbatim>\<open>g2\<close>, the Door holding a Wall \<^verbatim>\<open>g3\<close>. Every attribute is an
  instance attribute, as a constructor or the deserialiser sets it.
\<close>

definition node :: "(string \<times> pyval) list \<Rightarrow> pyobj" where
  "node kvs = \<lparr> inst_dict = kvs, class_attrs = [] \<rparr>"

definition scenario_heap :: heap where
  "scenario_heap =
     [0 \<mapsto> node [(''elements'', PList [PRef 1, PRef 2, PRef 3])],
      1 \<mapsto> node [(''speckle_type'', PStr ''Wall''), (''GlobalId'', PStr ''g1'')],
      2 \<mapsto> node [(''speckle_type'', PStr ''Objects.Geometry.Mesh'')],
      3 \<mapsto> node [(''speckle_type'', PStr ''Door''), (''GlobalId'', PStr ''g2''),
                   (''elements'', PList [PRef 4])],
      4 \<mapsto> node [(''speckle_type'', PStr ''Wall''), (''GlobalId'', PStr ''g3'')]]"

definition sample :: "string \<Rightarrow> instance_info" where
  "sample g = \<lparr> GlobalId = PStr g, Name = PStr ''Unknown'',
                ObjectType = PStr ''Unknown'', Tag = PStr ''Unknown'' \<rparr>"

section \<open>Ranking for display\<close>

text \<open>
  Line 223 of \<^verbatim>\<open>display_results\<close>:
  \<^verbatim>\<open>sorted(ifc_types.items(), key=lambda x: x[1]['count'], reverse=True)\<close>.
  Python's \<^verbatim>\<open>sorted\<close> is a stable sort; with \<^verbatim>\<open>reverse=True\<close> it reverses the
  list, sorts it ascending and stably, and reverses the result.
\<close>

definition py_sorted_reverse :: "('a \<Rightarrow> int) \<Rightarrow> 'a list \<Rightarrow> 'a list" where
  "py_sorted_reverse key xs = rev (sort_key key (rev xs))"

definition sorted_types :: "agg \<Rightarrow> (pyval \<times> bucket) list" where
  "sorted_types ifc_types = py_sorted_reverse (\<lambda>x. count (snd x)) ifc_types"

definition bucket_of :: "int \<Rightarrow> bucket" where
  "bucket_of n = \<lparr> count = n, instances = [] \<rparr>"

section \<open>The traversal as the source runs it: in place\<close>

text \<open>
  In the source \<^verbatim>\<open>ifc_types\<close> is a reference to one dict that every recursive
  call mutates. The program state holds the objects of the graph, the dicts
  by address, and the next free address; \<^verbatim>\<open>{}\<close> of line 142 takes a new
  address. Every statement writes what it writes in the source: the
  classification stores into the dict that \<^verbatim>\<open>ifc_types\<close> refers to, and nothing
  stores into an object.
\<close>

record pystate =
  objects :: heap
  dicts :: "addr \<Rightarrow> agg"
  next_id :: addr

definition new_dict :: "pystate \<Rightarrow> addr \<times> pystate" where
  "new_dict s =
     (next_id s, s\<lparr> dicts := (dicts s)(next_id s := []), next_id := Suc (next_id s) \<rparr>)"

text \<open>Storing into the dict at an address leaves everything else as it is.\<close>

definition store_dict :: "pystate \<Rightarrow> addr \<Rightarrow> agg \<Rightarrow> pystate" where
  "store_dict s r t = s\<lparr> dicts := (dicts s)(r := t) \<rparr>"

definition classify_in_place :: "pyobj \<Rightarrow> addr \<Rightarrow> pystate \<Rightarrow> py_error + pystate" where
  "classify_in_place data ifc_types s =
     (case classify data (dicts s ifc_types) of
        Inl e \<Rightarrow> Inl e
      | Inr t \<Rightarrow> Inr (store_dict s ifc_types t))"

function extract_in_place :: "pystate \<Rightarrow> pyval \<Rightarrow> addr \<Rightarrow> int \<Rightarrow> int \<Rightarrow> py_error + pystate"
  and extract_each_in_place ::
    "pystate \<Rightarrow> pyval list \<Rightarrow> addr \<Rightarrow> int \<Rightarrow> int \<Rightarrow> py_error + pystate"
  and extract_collections_in_place ::
    "pystate \<Rightarrow> (string \<times> pyval) list \<Rightarrow> addr \<Rightarrow> int \<Rightarrow> int \<Rightarrow> py_error + pystate"
where
  "extract_in_place s data ifc_types max_depth current_depth =
     (if current_depth > max_depth then Inr s
      else case data of
        PRef a \<Rightarrow>
          (case objects s a of
             None \<Rightarrow> Inr s
           | Some obj \<Rightarrow>
               (case classify_in_place obj ifc_types s of
                  Inl e \<Rightarrow> Inl e
                | Inr s1 \<Rightarrow>
                    (case (case py_getattr obj ''elements'' of
                             None \<Rightarrow> Inr s1
                           | Some elements \<Rightarrow>
                               if truthy elements then
                                 (case py_iter elements of
                                    Inl e \<Rightarrow> Inl e
                                  | Inr items \<Rightarrow>
                                      extract_each_in_place s1 items ifc_types max_depth
                                        (current_depth + 1))
                               else Inr s1) of
                       Inl e \<Rightarrow> Inl e
                     | Inr s2 \<Rightarrow>
                         extract_collections_in_place s2 (inst_dict obj) ifc_types max_depth
                           (current_depth + 1))))
      | _ \<Rightarrow> Inr s)"
| "extract_each_in_place s [] ifc_types max_depth depth = Inr s"
| "extract_each_in_place s (element # rest) ifc_types max_depth depth =
     (case extract_in_place s element ifc_types max_depth depth of
        Inl e \<Rightarrow> Inl e
      | Inr s1 \<Rightarrow> extract_each_in_place s1 rest ifc_types max_depth depth)"
| "extract_collections_in_place s [] ifc_types max_depth depth = Inr s"
| "extract_collections_in_place s ((attr_name, attr_value) # rest) ifc_types max_depth depth =
     (if \<not> starts_underscore attr_name \<and> is_list attr_value then
        (case extract_each_in_place s
                (filter (has_dict (objects s)) (list_items attr_value)) ifc_types
                max_depth depth of
           Inl e \<Rightarrow> Inl e
         | Inr s1 \<Rightarrow> extract_collections_in_place s1 rest ifc_types max_depth depth)
      else extract_collections_in_place s rest ifc_types max_depth depth)"
  by pat_completeness auto
termination
  by (relation "inv_image (less_than <*lex*> less_than <*lex*> less_than)
        (\<lambda>x. case x of
           Inl (s, data, r, m, d) \<Rightarrow> (nat (m + 1 - d), 0::nat, 0::nat)
         | Inr (Inl (s, xs, r, m, d)) \<Rightarrow> (nat (m + 1 - d), 1, length xs)
         | Inr (Inr (s, kvs, r, m, d)) \<Rightarrow> (nat (m + 1 - d), 2, length kvs))") auto

declare extract_in_place.simps [simp del]

text \<open>
  The method as a caller sees it: \<^verbatim>\<open>ifc_types=None\<close> becomes a new dict, and the
  reference to the dict is returned with the state the call leaves.
\<close>

definition extract_ifc_types_method ::
  "pystate \<Rightarrow> pyval \<Rightarrow> addr option \<Rightarrow> int \<Rightarrow> int \<Rightarrow> py_error + addr \<times> pystate" where
  "extract_ifc_types_method s data ifc_types max_depth current_depth =
     (case (case ifc_types of None \<Rightarrow> new_dict s | Some r \<Rightarrow> (r, s)) of
        (r, s0) \<Rightarrow>
          (case extract_in_place s0 data r max_depth current_depth of
             Inl e \<Rightarrow> Inl e
           | Inr s1 \<Rightarrow> Inr (r, s1)))"

text \<open>
  Two calls in a row with the default \<^verbatim>\<open>ifc_types=None\<close>, the second in the
  state the first has left; an exception of the first ends the run.
\<close>

definition two_calls :: "pystate \<Rightarrow> pyval \<Rightarrow> int \<Rightarrow> py_error + addr \<times> addr \<times> pystate" where
  "two_calls s data max_depth =
     (case extract_ifc_types_method s data None max_depth 0 of
        Inl e \<Rightarrow> Inl e
      | Inr (r1, s1) \<Rightarrow>
          (case extract_ifc_types_method s1 data None max_depth 0 of
             Inl e \<Rightarrow> Inl e
           | Inr (r2, s2) \<Rightarrow> Inr (r1, r2, s2)))"

definition scenario_state :: pystate where
  "scenario_state = \<lparr> objects = scenario_heap, dicts = (\<lambda>r. []), next_id = 0 \<rparr>"

section \<open>The traversal on a bounded call stack\<close>

text \<open>
  The same traversal with a bound on the number of nested calls of
  \<^verbatim>\<open>extract_ifc_types\<close>: every call takes one frame, the loops run inside the
  frame of their caller, and \<open>None\<close> is the stack running out.
\<close>

function extract_ifc_types_fuel ::
    "nat \<Rightarrow> heap \<Rightarrow> pyval \<Rightarrow> agg \<Rightarrow> int \<Rightarrow> int \<Rightarrow> (py_error + agg) option"
  and extract_each_fuel ::
    "nat \<Rightarrow> heap \<Rightarrow> pyval list \<Rightarrow> agg \<Rightarrow> int \<Rightarrow> int \<Rightarrow> (py_error + agg) option"
  and extract_collections_fuel ::
    "nat \<Rightarrow> heap \<Rightarrow> (string \<times> pyval) list \<Rightarrow> agg \<Rightarrow> int \<Rightarrow> int \<Rightarrow> (py_error + agg) option"
where
  "extract_ifc_types_fuel 0 h data ifc_types max_depth current_depth = None"
| "extract_ifc_types_fuel (Suc n) h data ifc_types max_depth current_depth =
     (if current_depth > max_depth then Some (Inr ifc_types)
      else case data of
        PRef a \<Rightarrow>
          (case h a of
             None \<Rightarrow> Some (Inr ifc_types)
           | Some obj \<Rightarrow>
               (case classify obj ifc_types of
                  Inl e \<Rightarrow> Some (Inl e)
                | Inr t1 \<Rightarrow>
                    (case (case py_getattr obj ''elements'' of
                             None \<Rightarrow> Some (Inr t1)
                           | Some elements \<Rightarrow>
                               if truthy elements then
                                 (case py_iter elements of
                                    Inl e \<Rightarrow> Some (Inl e)
                                  | Inr items \<Rightarrow>
                                      extract_each_fuel n h items t1 max_depth
                                        (current_depth + 1))
                               else Some (Inr t1)) of
                       None \<Rightarrow> None
                     | Some (Inl e) \<Rightarrow> Some (Inl e)
                     | Some (Inr t2) \<Rightarrow>
                         extract_collections_fuel n h (inst_dict obj) t2 max_depth
                           (current_depth + 1))))
      | _ \<Rightarrow> Some (Inr ifc_types))"
| "extract_each_fuel n h [] ifc_types max_depth depth = Some (Inr ifc_types)"
| "extract_each_fuel n h (element # rest) ifc_types max_depth depth =
     (case extract_ifc_types_fuel n h element ifc_types max_depth depth of
        None \<Rightarrow> None
      | Some (Inl e) \<Rightarrow> Some (Inl e)
      | Some (Inr t1) \<Rightarrow> extract_each_fuel n h rest t1 max_depth depth)"
| "extract_collections_fuel n h [] ifc_types max_depth depth = Some (Inr ifc_types)"
| "extract_collections_fuel n h ((attr_name, attr_value) # rest) ifc_types max_depth depth =
     (if \<not> starts_underscore attr_name \<and> is_list attr_value then
        (case extract_each_fuel n h (filter (has_dict h) (list_items attr_value)) ifc_types
                max_depth depth of
           None \<Rightarrow> None
         | Some (Inl e) \<Rightarrow> Some (Inl e)
         | Some (Inr t1) \<Rightarrow> extract_collections_fuel n h rest t1 max_depth depth)
      else extract_collections_fuel n h rest ifc_types max_depth depth)"
  by pat_completeness auto
termination
  by (relation "inv_image (less_than <*lex*> less_than <*lex*> less_than)
        (\<lambda>x. case x of
           Inl (n, h, data, t, m, d) \<Rightarrow> (n, 0::nat, 0::nat)
         | Inr (Inl (n, h, xs, t, m, d)) \<Rightarrow> (n, 1, length xs)
         | Inr (Inr (n, h, kvs, t, m, d)) \<Rightarrow> (n, 2, length kvs))") auto

text \<open>An object whose \<^verbatim>\<open>elements\<close> list holds the object itself.\<close>

definition cyclic_heap :: heap where
  "cyclic_heap =
     [0 \<mapsto> node [(''speckle_type'', PStr ''Wall''), (''elements'', PList [PRef 0])]]"

section \<open>Vocabulary of the properties\<close>

text \<open>
  An object is classified when it has a true \<^verbatim>\<open>speckle_type\<close> other than the
  mesh type; its entry is that type with its \<^verbatim>\<open>instance_info\<close>.
\<close>

definition classifiable :: "pyobj \<Rightarrow> bool" where
  "classifiable obj =
     (case py_getattr obj ''speckle_type'' of
        None \<Rightarrow> False
      | Some ty \<Rightarrow> truthy ty \<and> ty \<noteq> PStr ''Objects.Geometry.Mesh'')"

definition entries_at :: "heap \<Rightarrow> pyval \<Rightarrow> (pyval \<times> instance_info) set" where
  "entries_at h v =
     (case v of
        PRef a \<Rightarrow>
          (case h a of
             None \<Rightarrow> {}
           | Some obj \<Rightarrow>
               (case py_getattr obj ''speckle_type'' of
                  None \<Rightarrow> {}
                | Some ty \<Rightarrow>
                    if truthy ty \<and> ty \<noteq> PStr ''Objects.Geometry.Mesh''
                    then {(ty, instance_info_of obj)} else {}))
      | _ \<Rightarrow> {})"

text \<open>The entries an aggregation holds: every sample with the key of its bucket.\<close>

definition agg_entries :: "agg \<Rightarrow> (pyval \<times> instance_info) set" where
  "agg_entries t = (\<Union>(k, b) \<in> set t. {(k, r) | r. r \<in> set (instances b)})"

text \<open>
  The values on which a call of the traversal on \<open>v\<close> calls itself, one level
  deeper: the items of a true \<^verbatim>\<open>elements\<close>, then those of the list-valued
  attributes of \<^verbatim>\<open>__dict__\<close>.
\<close>

definition element_items :: "pyobj \<Rightarrow> pyval list" where
  "element_items obj =
     (case py_getattr obj ''elements'' of
        None \<Rightarrow> []
      | Some elements \<Rightarrow>
          if truthy elements then
            (case py_iter elements of Inl e \<Rightarrow> [] | Inr items \<Rightarrow> items)
          else [])"

fun collection_items :: "heap \<Rightarrow> (string \<times> pyval) list \<Rightarrow> pyval list" where
  "collection_items h [] = []"
| "collection_items h ((attr_name, attr_value) # rest) =
     (if \<not> starts_underscore attr_name \<and> is_list attr_value
      then filter (has_dict h) (list_items attr_value) else [])
     @ collection_items h rest"

definition children :: "heap \<Rightarrow> pyval \<Rightarrow> pyval list" where
  "children h v =
     (case v of
        PRef a \<Rightarrow>
          (case h a of
             None \<Rightarrow> []
           | Some obj \<Rightarrow> element_items obj @ collection_items h (inst_dict obj))
      | _ \<Rightarrow> [])"

text \<open>The values \<open>k\<close> levels below \<open>v\<close>, and the entries of depth at most \<open>n\<close>.\<close>

primrec at_depth :: "heap \<Rightarrow> nat \<Rightarrow> pyval \<Rightarrow> pyval set" where
  "at_depth h 0 v = {v}"
| "at_depth h (Suc k) v = (\<Union>c \<in> set (children h v). at_depth h k c)"

definition entries_within :: "heap \<Rightarrow> pyval \<Rightarrow> int \<Rightarrow> (pyval \<times> instance_info) set" where
  "entries_within h v n =
     (if n < 0 then {}
      else (\<Union>k \<in> {0..nat n}. \<Union>w \<in> at_depth h k v. entries_at h w))"

text \<open>Count and samples of every bucket agree.\<close>

definition agg_consistent :: "agg \<Rightarrow> bool" where
  "agg_consistent t = list_all (\<lambda>(k, b). count b = int (length (instances b))) t"

text \<open>
  The shape the traversal expects of an object: a \<^verbatim>\<open>speckle_type\<close> that is
  missing, \<^verbatim>\<open>None\<close> or a string, and an \<^verbatim>\<open>elements\<close> that is missing, \<^verbatim>\<open>None\<close>
  or a list.
\<close>

fun is_str :: "pyval \<Rightarrow> bool" where
  "is_str (PStr s) = True"
| "is_str v = False"

definition discriminator_ok :: "pyobj \<Rightarrow> bool" where
  "discriminator_ok obj =
     (case py_getattr obj ''speckle_type'' of
        None \<Rightarrow> True
      | Some ty \<Rightarrow> ty = PNone \<or> is_str ty)"

definition elements_ok :: "pyobj \<Rightarrow> bool" where
  "elements_ok obj =
     (case py_getattr obj ''elements'' of
        None \<Rightarrow> True
      | Some elements \<Rightarrow> elements = PNone \<or> is_list elements)"

definition well_shaped :: "heap \<Rightarrow> bool" where
  "well_shaped h = (\<forall>a obj. h a = Some obj \<longrightarrow> discriminator_ok obj \<and> elements_ok obj)"

text \<open>
  The values the two loops of a call iterate over: the items of a true
  \<^verbatim>\<open>elements\<close>, whatever its type, and the items of the list-valued attributes
  of \<^verbatim>\<open>__dict__\<close> without a leading underscore. A set of addresses is closed
  when it holds every object these values refer to.
\<close>

definition walked :: "pyobj \<Rightarrow> pyval list" where
  "walked obj =
     element_items obj
     @ concat (map (\<lambda>kv. list_items (snd kv))
         (filter (\<lambda>kv. \<not> starts_underscore (fst kv) \<and> is_list (snd kv)) (inst_dict obj)))"

definition closed_under_walk :: "heap \<Rightarrow> addr set \<Rightarrow> bool" where
  "closed_under_walk h S =
     (\<forall>a obj b. a \<in> S \<and> h a = Some obj \<and> PRef b \<in> set (walked obj) \<longrightarrow> b \<in> S)"

definition agree_on :: "addr set \<Rightarrow> heap \<Rightarrow> heap \<Rightarrow> bool" where
  "agree_on S h h' = (\<forall>a. a \<in> S \<longrightarrow> h a = h' a)"

text \<open>
  A Wall that holds three more Walls: one under an underscore-prefixed
  attribute, one in a tuple, one beside an item without \<^verbatim>\<open>__dict__\<close>.
\<close>

definition hidden_heap :: heap where
  "hidden_heap =
     [0 \<mapsto> node [(''speckle_type'', PStr ''Wall''), (''GlobalId'', PStr ''g0''),
                   (''_cache'', PList [PRef 1]),
                   (''pair'', PTuple [PRef 2]),
                   (''parts'', PList [PStr ''x'', PRef 3, PRef 9])],
      1 \<mapsto> node [(''speckle_type'', PStr ''Wall''), (''GlobalId'', PStr ''g1'')],
      2 \<mapsto> node [(''speckle_type'', PStr ''Wall''), (''GlobalId'', PStr ''g2'')],
      3 \<mapsto> node [(''speckle_type'', PStr ''Wall''), (''GlobalId'', PStr ''g3'')]]"

text \<open>The same graph with the two unwalked Walls replaced.\<close>

definition hidden_heap_changed :: heap where
  "hidden_heap_changed =
     hidden_heap(1 := None,
                 2 \<mapsto> node [(''speckle_type'', PStr ''Door''), (''GlobalId'', PStr ''d2'')])"

text \<open>A root whose \<^verbatim>\<open>elements\<close> is a tuple holding a Wall.\<close>

definition tuple_heap :: heap where
  "tuple_heap =
     [0 \<mapsto> node [(''elements'', PTuple [PRef 1])],
      1 \<mapsto> node [(''speckle_type'', PStr ''Wall''), (''GlobalId'', PStr ''g1'')]]"

text \<open>
  Lines 171 to 181: what a call does after the classification of its object.
\<close>

definition visit_children :: "heap \<Rightarrow> pyobj \<Rightarrow> agg \<Rightarrow> int \<Rightarrow> int \<Rightarrow> py_error + agg" where
  "visit_children h obj t max_depth current_depth =
     (case (case py_getattr obj ''elements'' of
              None \<Rightarrow> Inr t
            | Some elements \<Rightarrow>
                if truthy elements then
                  (case py_iter elements of
                     Inl e \<Rightarrow> Inl e
                   | Inr items \<Rightarrow> extract_each h items t max_depth (current_depth + 1))
                else Inr t) of
        Inl e \<Rightarrow> Inl e
      | Inr t2 \<Rightarrow> extract_collections h (inst_dict obj) t2 max_depth (current_depth + 1))"

text \<open>A mesh that holds a Wall.\<close>

definition mesh_heap :: heap where
  "mesh_heap =
     [0 \<mapsto> node [(''speckle_type'', PStr ''Objects.Geometry.Mesh''),
                   (''elements'', PList [PRef 1])],
      1 \<mapsto> node [(''speckle_type'', PStr ''Wall''), (''GlobalId'', PStr ''g1'')]]"

section \<open>Classification of one object\<close>

lemma map_entry_append_new:
  "map_of t k = None \<Longrightarrow> AList.map_entry k f (t @ [(k, v)]) = t @ [(k, f v)]"
  by (induction t) (auto split: if_splits)

lemma classify_not_classifiable: "\<not> classifiable obj \<Longrightarrow> classify obj t = Inr t"
  by (auto simp: classify_def classifiable_def split: option.splits)

lemma classify_unhashable:
  "py_getattr obj ''speckle_type'' = Some ty \<Longrightarrow> classifiable obj \<Longrightarrow> \<not> hashable ty \<Longrightarrow>
   classify obj t = Inl TypeError"
  by (auto simp: classify_def classifiable_def)

lemma classify_new:
  "py_getattr obj ''speckle_type'' = Some ty \<Longrightarrow> classifiable obj \<Longrightarrow> hashable ty \<Longrightarrow>
   map_of t ty = None \<Longrightarrow>
   classify obj t = Inr (t @ [(ty, \<lparr> count = 1, instances = [instance_info_of obj] \<rparr>)])"
  by (simp add: classify_def classifiable_def map_entry_append_new)

lemma map_entry_twice:
  "AList.map_entry k f (AList.map_entry k g t) = AList.map_entry k (\<lambda>x. f (g x)) t"
  by (induction t) auto

lemma classify_old:
  assumes "py_getattr obj ''speckle_type'' = Some ty" and "classifiable obj" and "hashable ty"
    and "map_of t ty = Some b"
  shows "classify obj t =
     Inr (AList.map_entry ty
            (\<lambda>b. b\<lparr> count := count b + 1, instances := instances b @ [instance_info_of obj] \<rparr>) t)"
  using assms by (simp add: classify_def classifiable_def Let_def map_entry_twice)

text \<open>
  C4. A classifiable object (a non-empty string \<^verbatim>\<open>speckle_type\<close> other than the
  mesh type) is classified without error: the bucket of its type gains, at
  the end of its samples, the object's \<^verbatim>\<open>instance_info\<close>, in which each of
  \<^verbatim>\<open>GlobalId\<close>, \<^verbatim>\<open>Name\<close>, \<^verbatim>\<open>ObjectType\<close> and \<^verbatim>\<open>Tag\<close> is the object's attribute
  when it has one and the string \<^verbatim>\<open>Unknown\<close> when it has none.
\<close>

theorem classify_instance_record:
  assumes "py_getattr obj ''speckle_type'' = Some (PStr ty)"
    and "ty \<noteq> []" and "ty \<noteq> ''Objects.Geometry.Mesh''"
  shows "\<exists>t' b. classify obj t = Inr t' \<and> map_of t' (PStr ty) = Some b \<and>
      instances b = (case map_of t (PStr ty) of None \<Rightarrow> [] | Some b0 \<Rightarrow> instances b0)
                    @ [instance_info_of obj] \<and>
      GlobalId (instance_info_of obj) =
        (case py_getattr obj ''GlobalId'' of Some v \<Rightarrow> v | None \<Rightarrow> PStr ''Unknown'') \<and>
      Name (instance_info_of obj) =
        (case py_getattr obj ''Name'' of Some v \<Rightarrow> v | None \<Rightarrow> PStr ''Unknown'') \<and>
      ObjectType (instance_info_of obj) =
        (case py_getattr obj ''ObjectType'' of Some v \<Rightarrow> v | None \<Rightarrow> PStr ''Unknown'') \<and>
      Tag (instance_info_of obj) =
        (case py_getattr obj ''Tag'' of Some v \<Rightarrow> v | None \<Rightarrow> PStr ''Unknown'')"
proof -
  have c: "classifiable obj" using assms by (simp add: classifiable_def)
  have hs: "hashable (PStr ty)" by simp
  have fields: "GlobalId (instance_info_of obj) =
        (case py_getattr obj ''GlobalId'' of Some v \<Rightarrow> v | None \<Rightarrow> PStr ''Unknown'') \<and>
      Name (instance_info_of obj) =
        (case py_getattr obj ''Name'' of Some v \<Rightarrow> v | None \<Rightarrow> PStr ''Unknown'') \<and>
      ObjectType (instance_info_of obj) =
        (case py_getattr obj ''ObjectType'' of Some v \<Rightarrow> v | None \<Rightarrow> PStr ''Unknown'') \<and>
      Tag (instance_info_of obj) =
        (case py_getattr obj ''Tag'' of Some v \<Rightarrow> v | None \<Rightarrow> PStr ''Unknown'')"
    by (simp add: instance_info_of_def getattr_default_def)
  show ?thesis
  proof (cases "map_of t (PStr ty)")
    case None
    from classify_new [OF assms(1) c hs None] None fields show ?thesis
      by (simp add: map_add_def)
  next
    case (Some b0)
    from classify_old [OF assms(1) c hs Some] Some fields show ?thesis
      by (simp add: map_of_map_entry)
  qed
qed

theorem classify_instance_record_witness:
  "\<exists>t' b. classify (node [(''speckle_type'', PStr ''Wall''), (''GlobalId'', PStr ''g1'')]) [] = Inr t'
      \<and> map_of t' (PStr ''Wall'') = Some b
      \<and> instances b = [\<lparr> GlobalId = PStr ''g1'', Name = PStr ''Unknown'',
                          ObjectType = PStr ''Unknown'', Tag = PStr ''Unknown'' \<rparr>]"
  using classify_instance_record
    [of "node [(''speckle_type'', PStr ''Wall''), (''GlobalId'', PStr ''g1'')]" "''Wall''" "[]"]
  by (simp add: node_def py_getattr_def instance_info_of_def getattr_default_def)

section \<open>Unfolding one call\<close>

lemma extract_beyond_depth:
  "max_depth < current_depth \<Longrightarrow>
   extract_ifc_types h data t max_depth current_depth = Inr t"
  by (simp add: extract_ifc_types.simps)

lemma extract_no_dict:
  "\<not> has_dict h data \<Longrightarrow> extract_ifc_types h data t max_depth current_depth = Inr t"
  by (cases data) (auto simp: extract_ifc_types.simps)

lemma extract_object:
  "current_depth \<le> max_depth \<Longrightarrow> h a = Some obj \<Longrightarrow>
   extract_ifc_types h (PRef a) t max_depth current_depth =
     (case classify obj t of
        Inl e \<Rightarrow> Inl e
      | Inr t1 \<Rightarrow> visit_children h obj t1 max_depth current_depth)"
  by (cases "classify obj t") (simp_all add: extract_ifc_types.simps visit_children_def)

section \<open>The scenario\<close>

text \<open>
  C1. On the graph of the scenario, with \<^verbatim>\<open>max_depth=10\<close> and no aggregation
  passed in, the traversal returns Wall with count 6 and Door with count 2:
  the loop over \<^verbatim>\<open>__dict__\<close> walks the list \<^verbatim>\<open>elements\<close> a second time, so here
  the objects one level below the root are counted twice and the Wall two
  levels below four times.
\<close>

theorem scenario_counts_every_path:
  "extract_ifc_types_call scenario_heap (PRef 0) None 10 0 =
     Inr [(PStr ''Wall'', \<lparr> count = 6, instances =
             [sample ''g1'', sample ''g3'', sample ''g3'',
              sample ''g1'', sample ''g3'', sample ''g3''] \<rparr>),
          (PStr ''Door'', \<lparr> count = 2, instances = [sample ''g2'', sample ''g2''] \<rparr>)]"
  by code_simp

section \<open>Ranking\<close>

lemma py_sorted_reverse_descending:
  "sorted_wrt (\<lambda>x y. key x \<ge> key y) (py_sorted_reverse key xs)"
proof -
  have "sorted (map key (sort_key key (rev xs)))" by simp
  then have "sorted_wrt (\<lambda>x y. key x \<le> key y) (sort_key key (rev xs))"
    by (simp add: sorted_map)
  then show ?thesis
    by (simp add: py_sorted_reverse_def sorted_wrt_rev)
qed

lemma py_sorted_reverse_stable:
  "filter (\<lambda>x. key x = c) (py_sorted_reverse key xs) = filter (\<lambda>x. key x = c) xs"
  by (simp add: py_sorted_reverse_def rev_filter [symmetric] sort_key_stable)

lemma py_sorted_reverse_mset: "mset (py_sorted_reverse key xs) = mset xs"
  by (simp add: py_sorted_reverse_def)

text \<open>
  C6. The ranking of \<^verbatim>\<open>display_results\<close> orders the buckets by count, largest
  first, keeps every bucket, and leaves the buckets of equal count in the
  order of the aggregation; buckets inserted as A:3, B:5, C:5 come out as
  B, C, A.
\<close>

theorem sorted_types_stable_descending:
  "sorted_wrt (\<lambda>x y. count (snd x) \<ge> count (snd y)) (sorted_types t)
   \<and> mset (sorted_types t) = mset t
   \<and> (\<forall>c. filter (\<lambda>x. count (snd x) = c) (sorted_types t) = filter (\<lambda>x. count (snd x) = c) t)
   \<and> map fst (sorted_types [(PStr ''A'', bucket_of 3), (PStr ''B'', bucket_of 5),
                              (PStr ''C'', bucket_of 5)])
      = [PStr ''B'', PStr ''C'', PStr ''A'']"
proof -
  have "map fst (sorted_types [(PStr ''A'', bucket_of 3), (PStr ''B'', bucket_of 5),
                               (PStr ''C'', bucket_of 5)])
        = [PStr ''B'', PStr ''C'', PStr ''A'']"
    by (simp add: sorted_types_def py_sorted_reverse_def bucket_of_def)
  then show ?thesis
    unfolding sorted_types_def
    using py_sorted_reverse_descending [of "\<lambda>x. count (snd x)" t]
      py_sorted_reverse_stable [of "\<lambda>x. count (snd x)" _ t]
      py_sorted_reverse_mset [of "\<lambda>x. count (snd x)" t]
    by simp
qed

section \<open>Invariants of the aggregation\<close>

lemma extract_each_Cons_Inr:
  "extract_each h (x # xs) t m d = Inr t' \<longleftrightarrow>
   (\<exists>t1. extract_ifc_types h x t m d = Inr t1 \<and> extract_each h xs t1 m d = Inr t')"
  by (cases "extract_ifc_types h x t m d") simp_all

lemma extract_collections_Cons_Inr:
  "extract_collections h ((n, v) # rest) t m d = Inr t' \<longleftrightarrow>
   (if \<not> starts_underscore n \<and> is_list v
    then \<exists>t1. extract_each h (filter (has_dict h) (list_items v)) t m d = Inr t1
              \<and> extract_collections h rest t1 m d = Inr t'
    else extract_collections h rest t m d = Inr t')"
  by (cases "extract_each h (filter (has_dict h) (list_items v)) t m d") simp_all

lemma visit_children_Inr:
  "visit_children h obj t m d = Inr t' \<longleftrightarrow>
   (\<exists>t2. (case py_getattr obj ''elements'' of
            None \<Rightarrow> Inr t
          | Some elements \<Rightarrow>
              if truthy elements then
                (case py_iter elements of
                   Inl e \<Rightarrow> Inl e
                 | Inr items \<Rightarrow> extract_each h items t m (d + 1))
              else Inr t) = Inr t2
         \<and> extract_collections h (inst_dict obj) t2 m (d + 1) = Inr t')"
  unfolding visit_children_def
  by (simp split: sum.split)

lemma extract_object_Inr:
  "d \<le> m \<Longrightarrow> h a = Some obj \<Longrightarrow>
   extract_ifc_types h (PRef a) t m d = Inr t' \<longleftrightarrow>
   (\<exists>t1. classify obj t = Inr t1 \<and> visit_children h obj t1 m d = Inr t')"
  by (cases "classify obj t") (simp_all add: extract_object)

lemma extract_preserves:
  assumes step: "\<And>obj t t'. I t \<Longrightarrow> classify obj t = Inr t' \<Longrightarrow> I t'"
  shows "I t \<Longrightarrow> extract_ifc_types h data t m d = Inr t' \<Longrightarrow> I t'"
    and "I t \<Longrightarrow> extract_each h xs t m d = Inr t' \<Longrightarrow> I t'"
    and "I t \<Longrightarrow> extract_collections h kvs t m d = Inr t' \<Longrightarrow> I t'"
proof (induction h data t m d and h xs t m d and h kvs t m d
    arbitrary: t' and t' and t'
    rule: extract_ifc_types_extract_each_extract_collections.induct)
  case (1 h data t m d)
  show ?case
  proof (cases "m < d")
    case True
    with "1.prems" show ?thesis by (simp add: extract_beyond_depth)
  next
    case deep: False
    show ?thesis
    proof (cases "has_dict h data")
      case False
      with "1.prems" show ?thesis by (simp add: extract_no_dict)
    next
      case True
      then obtain a obj where data: "data = PRef a" and obj: "h a = Some obj"
        by (cases data) auto
      from deep have le: "d \<le> m" by simp
      from "1.prems"(2) obtain t1
        where c: "classify obj t = Inr t1"
          and v: "visit_children h obj t1 m d = Inr t'"
        unfolding data extract_object_Inr [where h = h and a = a, OF le obj] by blast
      have i1: "I t1" using step "1.prems"(1) c by blast
      from v obtain t2 where
        e: "(case py_getattr obj ''elements'' of
              None \<Rightarrow> Inr t1
            | Some elements \<Rightarrow>
                if truthy elements then
                  (case py_iter elements of
                     Inl e \<Rightarrow> Inl e
                   | Inr items \<Rightarrow> extract_each h items t1 m (d + 1))
                else Inr t1) = Inr t2"
        and r: "extract_collections h (inst_dict obj) t2 m (d + 1) = Inr t'"
        unfolding visit_children_Inr by blast
      have i2: "I t2"
      proof (cases "py_getattr obj ''elements''")
        case None
        with e i1 show ?thesis by simp
      next
        case (Some es)
        show ?thesis
        proof (cases "truthy es")
          case False
          with e i1 Some show ?thesis by simp
        next
          case True
          with e Some obtain items where it: "py_iter es = Inr items"
            and ee: "extract_each h items t1 m (d + 1) = Inr t2"
            by (cases "py_iter es") simp_all
          from "1.IH"(1) [OF deep data obj c Some True it i1 ee] show ?thesis .
        qed
      qed
      show ?thesis
        using "1.IH"(2) [OF deep data obj c e i2 r] .
    qed
  qed
next
  case (2 h t m d)
  then show ?case by simp
next
  case (3 h element rest t m d)
  from "3.prems"(2) obtain t1 where a: "extract_ifc_types h element t m d = Inr t1"
    and b: "extract_each h rest t1 m d = Inr t'"
    unfolding extract_each_Cons_Inr by blast
  from "3.IH"(1) [OF "3.prems"(1) a] have "I t1" .
  from "3.IH"(2) [OF a this b] show ?case .
next
  case (4 h t m d)
  then show ?case by simp
next
  case (5 h attr_name attr_value rest t m d)
  show ?case
  proof (cases "\<not> starts_underscore attr_name \<and> is_list attr_value")
    case True
    with "5.prems"(2) obtain t1
      where a: "extract_each h (filter (has_dict h) (list_items attr_value)) t m d = Inr t1"
        and b: "extract_collections h rest t1 m d = Inr t'"
      unfolding extract_collections_Cons_Inr by auto
    from "5.IH"(1) [OF True "5.prems"(1) a] have "I t1" .
    from "5.IH"(2) [OF True a this b] show ?thesis .
  next
    case False
    with "5.prems"(2) have "extract_collections h rest t m d = Inr t'"
      unfolding extract_collections_Cons_Inr by auto
    from "5.IH"(3) [OF False "5.prems"(1) this] show ?thesis .
  qed
qed

lemma list_all_map_entry:
  "list_all P t \<Longrightarrow> (\<And>b. P (k, b) \<Longrightarrow> P (k, f b)) \<Longrightarrow> list_all P (AList.map_entry k f t)"
  by (induction t) auto

lemma classify_consistent:
  assumes "agg_consistent t" and "classify obj t = Inr t'"
  shows "agg_consistent t'"
proof (cases "classifiable obj")
  case False
  with assms show ?thesis by (simp add: classify_not_classifiable)
next
  case True
  then obtain ty where ty: "py_getattr obj ''speckle_type'' = Some ty"
    by (auto simp: classifiable_def split: option.splits)
  show ?thesis
  proof (cases "hashable ty")
    case False
    with assms ty True show ?thesis by (simp add: classify_unhashable)
  next
    case hs: True
    show ?thesis
    proof (cases "map_of t ty")
      case None
      from classify_new [OF ty True hs None] assms show ?thesis
        by (auto simp: agg_consistent_def)
    next
      case (Some b)
      from classify_old [OF ty True hs Some] assms(2)
      have "t' = AList.map_entry ty
            (\<lambda>b. b\<lparr> count := count b + 1, instances := instances b @ [instance_info_of obj] \<rparr>) t"
        by simp
      with assms(1) show ?thesis
        unfolding agg_consistent_def
        by (auto intro!: list_all_map_entry)
    qed
  qed
qed

lemma extract_consistent:
  assumes "agg_consistent t" and "extract_ifc_types h data t m d = Inr t'"
  shows "agg_consistent t'"
proof (rule extract_preserves(1) [where I = agg_consistent and t = t and h = h
      and data = data and m = m and d = d])
  show "agg_consistent t'" if "agg_consistent t" and "classify obj t = Inr t'" for obj t t'
    using that by (rule classify_consistent)
qed (rule assms)+

text \<open>
  C5. Count and number of samples agree in every bucket: one classification
  keeps the agreement (it adds 1 to the count and one sample), so does a whole
  traversal, and after a call that starts from the empty aggregation every
  bucket has \<^verbatim>\<open>count == len(instances)\<close>.
\<close>

theorem count_matches_samples:
  "(agg_consistent t \<and> classify obj t = Inr t' \<longrightarrow> agg_consistent t')
   \<and> (agg_consistent t \<and> extract_ifc_types h data t m d = Inr t' \<longrightarrow> agg_consistent t')
   \<and> (extract_ifc_types_call h data None m d = Inr t' \<longrightarrow>
        (\<forall>(k, b) \<in> set t'. count b = int (length (instances b))))"
proof (intro conjI impI)
  assume "agg_consistent t \<and> classify obj t = Inr t'"
  then show "agg_consistent t'" using classify_consistent by blast
next
  assume "agg_consistent t \<and> extract_ifc_types h data t m d = Inr t'"
  then show "agg_consistent t'" using extract_consistent by blast
next
  assume "extract_ifc_types_call h data None m d = Inr t'"
  then have r: "extract_ifc_types h data [] m d = Inr t'"
    by (simp add: extract_ifc_types_call_def)
  have "agg_consistent []" by (simp add: agg_consistent_def)
  from extract_consistent [OF this r] have "agg_consistent t'" .
  then show "\<forall>(k, b) \<in> set t'. count b = int (length (instances b))"
    by (simp add: agg_consistent_def list_all_iff)
qed

theorem count_matches_samples_witness:
  "extract_ifc_types_call scenario_heap (PRef 0) None 10 0 =
     Inr [(PStr ''Wall'', \<lparr> count = 6, instances =
             [sample ''g1'', sample ''g3'', sample ''g3'',
              sample ''g1'', sample ''g3'', sample ''g3''] \<rparr>),
          (PStr ''Door'', \<lparr> count = 2, instances = [sample ''g2'', sample ''g2''] \<rparr>)]
   \<and> agg_consistent
        [(PStr ''Wall'', \<lparr> count = 6, instances =
             [sample ''g1'', sample ''g3'', sample ''g3'',
              sample ''g1'', sample ''g3'', sample ''g3''] \<rparr>),
          (PStr ''Door'', \<lparr> count = 2, instances = [sample ''g2'', sample ''g2''] \<rparr>)]"
proof -
  define r where "r = [(PStr ''Wall'', \<lparr> count = 6, instances =
             [sample ''g1'', sample ''g3'', sample ''g3'',
              sample ''g1'', sample ''g3'', sample ''g3''] \<rparr>),
          (PStr ''Door'', \<lparr> count = 2, instances = [sample ''g2'', sample ''g2''] \<rparr>)]"
  have e: "extract_ifc_types_call scenario_heap (PRef 0) None 10 0 = Inr r"
    unfolding r_def by code_simp
  then have e': "extract_ifc_types scenario_heap (PRef 0) [] 10 0 = Inr r"
    by (simp add: extract_ifc_types_call_def)
  have "agg_consistent []" by (simp add: agg_consistent_def)
  with e' have "agg_consistent r"
    using count_matches_samples [where t = "[]" and h = scenario_heap and data = "PRef 0"
        and m = 10 and d = 0 and t' = r]
    by blast
  with e show ?thesis unfolding r_def by blast
qed

section \<open>Totality on well-shaped graphs\<close>

lemma classify_error_iff:
  "classify obj t = Inl e \<longleftrightarrow>
   (\<exists>ty. py_getattr obj ''speckle_type'' = Some ty \<and> classifiable obj \<and> \<not> hashable ty)"
  by (cases e) (auto simp: classify_def classifiable_def Let_def split: option.splits)

lemma classify_total:
  assumes "discriminator_ok obj"
  shows "\<exists>t'. classify obj t = Inr t'"
proof (cases "classify obj t")
  case (Inl e)
  then obtain ty where "py_getattr obj ''speckle_type'' = Some ty" "classifiable obj" "\<not> hashable ty"
    unfolding classify_error_iff by blast
  with assms show ?thesis
    by (cases ty) (simp_all add: discriminator_ok_def)
next
  case (Inr t')
  then show ?thesis by blast
qed

lemma extract_total:
  assumes wf: "well_shaped h"
  shows "\<exists>t'. extract_ifc_types h data t m d = Inr t'"
    and "\<exists>t'. extract_each h xs t m d = Inr t'"
    and "\<exists>t'. extract_collections h kvs t m d = Inr t'"
  using wf
proof (induction h data t m d and h xs t m d and h kvs t m d
    rule: extract_ifc_types_extract_each_extract_collections.induct)
  case (1 h data t m d)
  show ?case
  proof (cases "m < d")
    case True
    then show ?thesis by (simp add: extract_beyond_depth)
  next
    case deep: False
    show ?thesis
    proof (cases "has_dict h data")
      case False
      then show ?thesis by (simp add: extract_no_dict)
    next
      case True
      then obtain a obj where data: "data = PRef a" and obj: "h a = Some obj"
        by (cases data) auto
      from deep have le: "d \<le> m" by simp
      from "1.prems" obj have dk: "discriminator_ok obj" and ek: "elements_ok obj"
        by (auto simp: well_shaped_def)
      from classify_total [OF dk] obtain t1 where c: "classify obj t = Inr t1" by blast
      have "\<exists>t2. (case py_getattr obj ''elements'' of
              None \<Rightarrow> Inr t1
            | Some elements \<Rightarrow>
                if truthy elements then
                  (case py_iter elements of
                     Inl e \<Rightarrow> Inl e
                   | Inr items \<Rightarrow> extract_each h items t1 m (d + 1))
                else Inr t1) = Inr t2"
      proof (cases "py_getattr obj ''elements''")
        case None
        then show ?thesis by simp
      next
        case (Some es)
        show ?thesis
        proof (cases "truthy es")
          case False
          with Some show ?thesis by simp
        next
          case True
          with ek Some obtain items where es: "es = PList items"
            by (cases es) (auto simp: elements_ok_def)
          then have it: "py_iter es = Inr items" by simp
          from "1.IH"(1) [OF deep data obj c Some True it "1.prems"]
          show ?thesis using Some True it by simp
        qed
      qed
      then obtain t2 where e: "(case py_getattr obj ''elements'' of
              None \<Rightarrow> Inr t1
            | Some elements \<Rightarrow>
                if truthy elements then
                  (case py_iter elements of
                     Inl e \<Rightarrow> Inl e
                   | Inr items \<Rightarrow> extract_each h items t1 m (d + 1))
                else Inr t1) = Inr t2" by blast
      from "1.IH"(2) [OF deep data obj c e "1.prems"] obtain t'
        where r: "extract_collections h (inst_dict obj) t2 m (d + 1) = Inr t'" by blast
      from e r have "visit_children h obj t1 m d = Inr t'"
        unfolding visit_children_Inr by blast
      with c show ?thesis
        unfolding data extract_object_Inr [where h = h and a = a, OF le obj] by blast
    qed
  qed
next
  case (2 h t m d)
  then show ?case by simp
next
  case (3 h element rest t m d)
  from "3.IH"(1) [OF "3.prems"] obtain t1
    where a: "extract_ifc_types h element t m d = Inr t1" by blast
  from "3.IH"(2) [OF a "3.prems"] obtain t'
    where "extract_each h rest t1 m d = Inr t'" by blast
  with a show ?case unfolding extract_each_Cons_Inr by blast
next
  case (4 h t m d)
  then show ?case by simp
next
  case (5 h attr_name attr_value rest t m d)
  show ?case
  proof (cases "\<not> starts_underscore attr_name \<and> is_list attr_value")
    case True
    from "5.IH"(1) [OF True "5.prems"] obtain t1
      where a: "extract_each h (filter (has_dict h) (list_items attr_value)) t m d = Inr t1"
      by blast
    from "5.IH"(2) [OF True a "5.prems"] obtain t'
      where "extract_collections h rest t1 m d = Inr t'" by blast
    with a True show ?thesis unfolding extract_collections_Cons_Inr by auto
  next
    case False
    from "5.IH"(3) [OF False "5.prems"] obtain t'
      where "extract_collections h rest t m d = Inr t'" by blast
    with False show ?thesis unfolding extract_collections_Cons_Inr by auto
  qed
qed

text \<open>
  C8. The classification has one error branch, an unhashable \<^verbatim>\<open>speckle_type\<close>;
  \<^verbatim>\<open>getattr\<close> with the default \<^verbatim>\<open>Unknown\<close> has none. So an object whose
  \<^verbatim>\<open>speckle_type\<close> is missing, \<^verbatim>\<open>None\<close> or a string is always classified, and
  on a graph of such objects, whose \<^verbatim>\<open>elements\<close> are missing, \<^verbatim>\<open>None\<close> or lists,
  the traversal returns an aggregation from every object, depth and starting
  aggregation.
\<close>

theorem classification_total:
  "(discriminator_ok obj \<longrightarrow> (\<exists>t'. classify obj t = Inr t'))
   \<and> (classify obj t = Inl e \<longrightarrow>
        (\<exists>ty. py_getattr obj ''speckle_type'' = Some ty \<and> \<not> hashable ty))
   \<and> (well_shaped h \<longrightarrow> (\<exists>t'. extract_ifc_types h data t m d = Inr t'))"
  using classify_total [of obj t] classify_error_iff [of obj t e]
    extract_total(1) [of h data t m d]
  by blast

lemma well_shaped_scenario: "well_shaped scenario_heap"
  by (simp add: well_shaped_def scenario_heap_def node_def discriminator_ok_def
      elements_ok_def py_getattr_def)

theorem classification_total_witness:
  "well_shaped scenario_heap
   \<and> discriminator_ok (node [(''speckle_type'', PStr ''Wall'')])
   \<and> (\<exists>t'. classify (node [(''speckle_type'', PStr ''Wall'')]) [] = Inr t')
   \<and> classify (node [(''speckle_type'', PList [PInt 1])]) [] = Inl TypeError
   \<and> (\<exists>t'. extract_ifc_types scenario_heap (PRef 0) [] 10 0 = Inr t')"
proof -
  have a: "discriminator_ok (node [(''speckle_type'', PStr ''Wall'')])"
    by (simp add: discriminator_ok_def node_def py_getattr_def)
  have b: "classify (node [(''speckle_type'', PList [PInt 1])]) [] = Inl TypeError"
    by (simp add: classify_def node_def py_getattr_def)
  show ?thesis
    using a b well_shaped_scenario
      classification_total [of "node [(''speckle_type'', PStr ''Wall'')]" "[]" TypeError
        scenario_heap "PRef 0" 10 0]
    by blast
qed

section \<open>Termination on a bounded stack\<close>

lemma extract_fuel_agrees:
  "nat (m + 1 - d) < n \<Longrightarrow>
     extract_ifc_types_fuel n h data t m d = Some (extract_ifc_types h data t m d)"
  "nat (m + 1 - d) < n \<Longrightarrow>
     extract_each_fuel n h xs t m d = Some (extract_each h xs t m d)"
  "nat (m + 1 - d) < n \<Longrightarrow>
     extract_collections_fuel n h kvs t m d = Some (extract_collections h kvs t m d)"
proof (induction h data t m d and h xs t m d and h kvs t m d
    arbitrary: n and n and n
    rule: extract_ifc_types_extract_each_extract_collections.induct)
  case (1 h data t m d)
  from "1.prems" obtain k where n: "n = Suc k" by (cases n) auto
  show ?case
  proof (cases "m < d")
    case True
    then show ?thesis by (simp add: n extract_beyond_depth)
  next
    case deep: False
    with "1.prems" n have fuel: "nat (m + 1 - (d + 1)) < k" by simp
    show ?thesis
    proof (cases "has_dict h data")
      case False
      with deep show ?thesis
        by (cases data) (simp_all add: n extract_ifc_types.simps)
    next
      case True
      then obtain a obj where data: "data = PRef a" and obj: "h a = Some obj"
        by (cases data) auto
      show ?thesis
      proof (cases "classify obj t")
        case (Inl e)
        with deep show ?thesis
          by (simp add: n data obj extract_ifc_types.simps)
      next
        case c: (Inr t1)
        have ef: "(case py_getattr obj ''elements'' of
                     None \<Rightarrow> Some (Inr t1)
                   | Some elements \<Rightarrow>
                       if truthy elements then
                         (case py_iter elements of
                            Inl e \<Rightarrow> Some (Inl e)
                          | Inr items \<Rightarrow> extract_each_fuel k h items t1 m (d + 1))
                       else Some (Inr t1))
                = Some (case py_getattr obj ''elements'' of
                     None \<Rightarrow> Inr t1
                   | Some elements \<Rightarrow>
                       if truthy elements then
                         (case py_iter elements of
                            Inl e \<Rightarrow> Inl e
                          | Inr items \<Rightarrow> extract_each h items t1 m (d + 1))
                       else Inr t1)"
        proof (cases "py_getattr obj ''elements''")
          case None
          then show ?thesis by simp
        next
          case (Some es)
          show ?thesis
          proof (cases "truthy es")
            case False
            with Some show ?thesis by simp
          next
            case True
            show ?thesis
            proof (cases "py_iter es")
              case (Inl e)
              with Some True show ?thesis by simp
            next
              case (Inr items)
              from "1.IH"(1) [OF deep data obj c Some True Inr fuel]
              show ?thesis using Some True Inr by simp
            qed
          qed
        qed
        show ?thesis
        proof (cases "case py_getattr obj ''elements'' of
                     None \<Rightarrow> Inr t1
                   | Some elements \<Rightarrow>
                       if truthy elements then
                         (case py_iter elements of
                            Inl e \<Rightarrow> Inl e
                          | Inr items \<Rightarrow> extract_each h items t1 m (d + 1))
                       else Inr t1")
          case (Inl e)
          with deep c ef show ?thesis
            by (simp add: n data obj extract_ifc_types.simps)
        next
          case (Inr t2)
          from "1.IH"(2) [OF deep data obj c Inr fuel]
          have "extract_collections_fuel k h (inst_dict obj) t2 m (d + 1) =
                Some (extract_collections h (inst_dict obj) t2 m (d + 1))" .
          with deep c ef Inr show ?thesis
            by (simp add: n data obj extract_ifc_types.simps)
        qed
      qed
    qed
  qed
next
  case (2 h t m d)
  then show ?case by simp
next
  case (3 h element rest t m d)
  note a = "3.IH"(1) [OF "3.prems"]
  show ?case
  proof (cases "extract_ifc_types h element t m d")
    case (Inl e)
    with a show ?thesis by simp
  next
    case (Inr t1)
    from "3.IH"(2) [OF Inr "3.prems"] a Inr show ?thesis by simp
  qed
next
  case (4 h t m d)
  then show ?case by simp
next
  case (5 h attr_name attr_value rest t m d)
  show ?case
  proof (cases "\<not> starts_underscore attr_name \<and> is_list attr_value")
    case True
    note a = "5.IH"(1) [OF True "5.prems"]
    show ?thesis
    proof (cases "extract_each h (filter (has_dict h) (list_items attr_value)) t m d")
      case (Inl e)
      with a True show ?thesis by simp
    next
      case (Inr t1)
      from "5.IH"(2) [OF True Inr "5.prems"] a True Inr show ?thesis by simp
    qed
  next
    case False
    from "5.IH"(3) [OF False "5.prems"] False show ?thesis by auto
  qed
qed

text \<open>
  C9. The traversal returns on every graph, cyclic ones too: every call passes
  \<^verbatim>\<open>current_depth + 1\<close> on and a call beyond \<^verbatim>\<open>max_depth\<close> returns at once, so
  a stack of more than \<^verbatim>\<open>max_depth + 1 - current_depth\<close> frames is never exhausted,
  and the result on it is the result of the traversal.
\<close>

theorem extract_terminates:
  "nat (max_depth + 1 - current_depth) < frames \<Longrightarrow>
     extract_ifc_types_fuel frames h data t max_depth current_depth =
       Some (extract_ifc_types h data t max_depth current_depth)"
  by (rule extract_fuel_agrees(1))

theorem extract_terminates_witness:
  "nat (2 + 1 - 0) < (4::nat)
   \<and> extract_ifc_types_fuel 4 cyclic_heap (PRef 0) [] 2 0 =
       Some (Inr [(PStr ''Wall'', \<lparr> count = 7, instances = replicate 7 (sample ''Unknown'') \<rparr>)])
   \<and> extract_ifc_types cyclic_heap (PRef 0) [] 2 0 =
       Inr [(PStr ''Wall'', \<lparr> count = 7, instances = replicate 7 (sample ''Unknown'') \<rparr>)]"
proof -
  have "extract_ifc_types cyclic_heap (PRef 0) [] 2 0 =
       Inr [(PStr ''Wall'', \<lparr> count = 7, instances = replicate 7 (sample ''Unknown'') \<rparr>)]"
    by code_simp
  then show ?thesis
    using extract_terminates [of 2 0 4 cyclic_heap "PRef 0" "[]"] by simp
qed

section \<open>Which objects are classified\<close>

lemma agg_entries_Nil: "agg_entries [] = {}"
  by (simp add: agg_entries_def)

lemma agg_entries_Cons:
  "agg_entries ((k, b) # t) = {(k, r) | r. r \<in> set (instances b)} \<union> agg_entries t"
  by (simp add: agg_entries_def)

lemma agg_entries_append:
  "agg_entries (t @ u) = agg_entries t \<union> agg_entries u"
  by (simp add: agg_entries_def)

lemma agg_entries_map_entry:
  "map_of t k = Some b \<Longrightarrow> (\<And>b. instances (f b) = instances b @ [r]) \<Longrightarrow>
   agg_entries (AList.map_entry k f t) = agg_entries t \<union> {(k, r)}"
proof (induction t)
  case Nil
  then show ?case by simp
next
  case (Cons p t)
  obtain k' b' where p: "p = (k', b')" by (cases p)
  show ?case
  proof (cases "k' = k")
    case True
    with Cons.prems(2) show ?thesis
      by (auto simp: p agg_entries_Cons)
  next
    case False
    with Cons show ?thesis
      by (auto simp: p agg_entries_Cons)
  qed
qed

lemma classify_entries:
  assumes "h a = Some obj" and "classify obj t = Inr t'"
  shows "agg_entries t' = agg_entries t \<union> entries_at h (PRef a)"
proof (cases "classifiable obj")
  case False
  with assms show ?thesis
    by (auto simp: classify_not_classifiable entries_at_def classifiable_def
        split: option.splits)
next
  case True
  then obtain ty where ty: "py_getattr obj ''speckle_type'' = Some ty"
    by (auto simp: classifiable_def split: option.splits)
  with True assms(1) have at: "entries_at h (PRef a) = {(ty, instance_info_of obj)}"
    by (simp add: entries_at_def classifiable_def)
  show ?thesis
  proof (cases "hashable ty")
    case False
    with assms ty True show ?thesis by (simp add: classify_unhashable)
  next
    case hs: True
    show ?thesis
    proof (cases "map_of t ty")
      case None
      from classify_new [OF ty True hs None] assms(2) at show ?thesis
        by (auto simp: agg_entries_append agg_entries_Cons agg_entries_Nil)
    next
      case (Some b)
      from classify_old [OF ty True hs Some] assms(2)
      have "t' = AList.map_entry ty
            (\<lambda>b. b\<lparr> count := count b + 1, instances := instances b @ [instance_info_of obj] \<rparr>) t"
        by simp
      with at show ?thesis
        by (simp add: agg_entries_map_entry [OF Some])
    qed
  qed
qed

lemma entries_within_negative: "n < 0 \<Longrightarrow> entries_within h v n = {}"
  by (simp add: entries_within_def)

lemma UN_upto_Suc: "(\<Union>k \<in> {0..Suc j}. F k) = F 0 \<union> (\<Union>k \<in> {0..j}. F (Suc k))"
proof -
  have "{0..Suc j} = insert 0 (Suc ` {0..j})"
    by (auto simp: image_iff)
  then have "(\<Union>k \<in> {0..Suc j}. F k) = (\<Union>k \<in> insert 0 (Suc ` {0..j}). F k)"
    by (simp only:)
  also have "\<dots> = F 0 \<union> (\<Union>k \<in> {0..j}. F (Suc k))"
    by (simp only: UN_insert image_image)
  finally show ?thesis .
qed

lemma entries_within_unfold:
  assumes "0 \<le> n"
  shows "entries_within h v n =
         entries_at h v \<union> (\<Union>c \<in> set (children h v). entries_within h c (n - 1))"
proof (cases "nat n")
  case 0
  with assms have "n = 0" by simp
  then show ?thesis by (simp add: entries_within_def)
next
  case (Suc j)
  with assms have n: "n = int j + 1" by simp
  have "entries_within h v n = (\<Union>k \<in> {0..Suc j}. \<Union>w \<in> at_depth h k v. entries_at h w)"
    using assms Suc by (simp add: entries_within_def)
  also have "\<dots> = (\<Union>w \<in> at_depth h 0 v. entries_at h w) \<union>
      (\<Union>k \<in> {0..j}. \<Union>w \<in> at_depth h (Suc k) v. entries_at h w)"
    by (rule UN_upto_Suc)
  also have "(\<Union>w \<in> at_depth h 0 v. entries_at h w) = entries_at h v"
    by simp
  also have "(\<Union>k \<in> {0..j}. \<Union>w \<in> at_depth h (Suc k) v. entries_at h w) =
      (\<Union>c \<in> set (children h v). entries_within h c (n - 1))"
    by (auto simp: entries_within_def n)
  finally show ?thesis .
qed

lemma entries_within_no_dict: "\<not> has_dict h v \<Longrightarrow> entries_within h v n = {}"
proof (cases "n < 0")
  case True
  then show ?thesis by (simp add: entries_within_negative)
next
  case False
  assume "\<not> has_dict h v"
  then have "entries_at h v = {}" and "children h v = []"
    by (cases v; auto simp: entries_at_def children_def split: option.splits)+
  with False show ?thesis by (simp add: entries_within_unfold)
qed

lemma extract_entries:
  "extract_ifc_types h data t m d = Inr t' \<Longrightarrow>
     agg_entries t' = agg_entries t \<union> entries_within h data (m - d)"
  "extract_each h xs t m d = Inr t' \<Longrightarrow>
     agg_entries t' = agg_entries t \<union> (\<Union>x \<in> set xs. entries_within h x (m - d))"
  "extract_collections h kvs t m d = Inr t' \<Longrightarrow>
     agg_entries t' =
       agg_entries t \<union> (\<Union>x \<in> set (collection_items h kvs). entries_within h x (m - d))"
proof (induction h data t m d and h xs t m d and h kvs t m d
    arbitrary: t' and t' and t'
    rule: extract_ifc_types_extract_each_extract_collections.induct)
  case (1 h data t m d)
  show ?case
  proof (cases "m < d")
    case True
    with "1.prems" show ?thesis
      by (simp add: extract_beyond_depth entries_within_negative)
  next
    case deep: False
    show ?thesis
    proof (cases "has_dict h data")
      case False
      with "1.prems" show ?thesis
        by (simp add: extract_no_dict entries_within_no_dict)
    next
      case True
      then obtain a obj where data: "data = PRef a" and obj: "h a = Some obj"
        by (cases data) auto
      from deep have le: "d \<le> m" by simp
      from "1.prems" obtain t1
        where c: "classify obj t = Inr t1"
          and v: "visit_children h obj t1 m d = Inr t'"
        unfolding data extract_object_Inr [where h = h and a = a, OF le obj] by blast
      from v obtain t2 where
        e: "(case py_getattr obj ''elements'' of
              None \<Rightarrow> Inr t1
            | Some elements \<Rightarrow>
                if truthy elements then
                  (case py_iter elements of
                     Inl e \<Rightarrow> Inl e
                   | Inr items \<Rightarrow> extract_each h items t1 m (d + 1))
                else Inr t1) = Inr t2"
        and r: "extract_collections h (inst_dict obj) t2 m (d + 1) = Inr t'"
        unfolding visit_children_Inr by blast
      have s1: "agg_entries t1 = agg_entries t \<union> entries_at h (PRef a)"
        using classify_entries [where h = h and a = a, OF obj c] .
      have s2: "agg_entries t2 = agg_entries t1 \<union>
                  (\<Union>x \<in> set (element_items obj). entries_within h x (m - (d + 1)))"
      proof (cases "py_getattr obj ''elements''")
        case None
        with e show ?thesis by (simp add: element_items_def)
      next
        case (Some es)
        show ?thesis
        proof (cases "truthy es")
          case False
          with e Some show ?thesis by (simp add: element_items_def)
        next
          case True
          with e Some obtain items where it: "py_iter es = Inr items"
            and ee: "extract_each h items t1 m (d + 1) = Inr t2"
            by (cases "py_iter es") simp_all
          from "1.IH"(1) [OF deep data obj c Some True it ee] Some True it
          show ?thesis by (simp add: element_items_def)
        qed
      qed
      have s3: "agg_entries t' = agg_entries t2 \<union>
                  (\<Union>x \<in> set (collection_items h (inst_dict obj)).
                       entries_within h x (m - (d + 1)))"
        using "1.IH"(2) [OF deep data obj c e r] .
      have ch: "children h (PRef a) = element_items obj @ collection_items h (inst_dict obj)"
        using obj by (simp add: children_def)
      have n: "0 \<le> m - d" and n1: "m - d - 1 = m - (d + 1)" using le by simp_all
      have "entries_within h (PRef a) (m - d) =
              entries_at h (PRef a) \<union>
              (\<Union>c \<in> set (children h (PRef a)). entries_within h c (m - (d + 1)))"
        using entries_within_unfold [OF n, of h "PRef a"] unfolding n1 .
      with s1 s2 s3 ch show ?thesis
        unfolding data by auto
    qed
  qed
next
  case (2 h t m d)
  then show ?case by simp
next
  case (3 h element rest t m d)
  from "3.prems" obtain t1 where a: "extract_ifc_types h element t m d = Inr t1"
    and b: "extract_each h rest t1 m d = Inr t'"
    unfolding extract_each_Cons_Inr by blast
  from "3.IH"(1) [OF a] "3.IH"(2) [OF a b] show ?case by auto
next
  case (4 h t m d)
  then show ?case by simp
next
  case (5 h attr_name attr_value rest t m d)
  show ?case
  proof (cases "\<not> starts_underscore attr_name \<and> is_list attr_value")
    case True
    with "5.prems" obtain t1
      where a: "extract_each h (filter (has_dict h) (list_items attr_value)) t m d = Inr t1"
        and b: "extract_collections h rest t1 m d = Inr t'"
      unfolding extract_collections_Cons_Inr by auto
    have ci: "collection_items h ((attr_name, attr_value) # rest) =
              filter (has_dict h) (list_items attr_value) @ collection_items h rest"
      using True by simp
    from "5.IH"(1) [OF True a] "5.IH"(2) [OF True a b] show ?thesis
      unfolding ci by (simp add: Un_assoc)
  next
    case False
    with "5.prems" have b: "extract_collections h rest t m d = Inr t'"
      unfolding extract_collections_Cons_Inr by auto
    have ci: "collection_items h ((attr_name, attr_value) # rest) = collection_items h rest"
      using False by auto
    from "5.IH"(3) [OF False b] show ?thesis unfolding ci .
  qed
qed



text \<open>
  C3. An object whose \<^verbatim>\<open>speckle_type\<close> is the mesh type leaves the aggregation as
  it is: no count grows and no sample is added for it. The call still runs
  the loops over its \<^verbatim>\<open>elements\<close> and over the lists of its \<^verbatim>\<open>__dict__\<close>, and
  what the call adds to the aggregation are the entries of the objects below.
\<close>

theorem mesh_skipped_children_visited:
  assumes "h a = Some obj"
    and "py_getattr obj ''speckle_type'' = Some (PStr ''Objects.Geometry.Mesh'')"
  shows "classify obj t = Inr t
    \<and> entries_at h (PRef a) = {}
    \<and> (d \<le> m \<longrightarrow> extract_ifc_types h (PRef a) t m d = visit_children h obj t m d)
    \<and> (d \<le> m \<and> extract_ifc_types h (PRef a) t m d = Inr t' \<longrightarrow>
         agg_entries t' =
           agg_entries t \<union> (\<Union>c \<in> set (children h (PRef a)). entries_within h c (m - d - 1)))"
proof -
  from assms(2) have nc: "\<not> classifiable obj" by (simp add: classifiable_def)
  then have c: "classify obj t = Inr t" by (rule classify_not_classifiable)
  from assms have at: "entries_at h (PRef a) = {}" by (simp add: entries_at_def)
  have v: "extract_ifc_types h (PRef a) t m d = visit_children h obj t m d" if "d \<le> m"
    using extract_object [where h = h and a = a, OF that assms(1)] c by simp
  have w: "agg_entries t' =
           agg_entries t \<union> (\<Union>c \<in> set (children h (PRef a)). entries_within h c (m - d - 1))"
    if "d \<le> m" and r: "extract_ifc_types h (PRef a) t m d = Inr t'"
  proof -
    from that(1) have "0 \<le> m - d" by simp
    from entries_within_unfold [OF this, of h "PRef a"] at extract_entries(1) [OF r]
    show ?thesis by simp
  qed
  from c at v w show ?thesis by blast
qed

theorem mesh_skipped_children_visited_witness:
  "classify (node [(''speckle_type'', PStr ''Objects.Geometry.Mesh''),
                   (''elements'', PList [PRef 1])]) [] = Inr []
   \<and> extract_ifc_types mesh_heap (PRef 0) [] 10 0 =
       Inr [(PStr ''Wall'', \<lparr> count = 2, instances = [sample ''g1'', sample ''g1''] \<rparr>)]
   \<and> visit_children mesh_heap
        (node [(''speckle_type'', PStr ''Objects.Geometry.Mesh''),
               (''elements'', PList [PRef 1])]) [] 10 0 =
       Inr [(PStr ''Wall'', \<lparr> count = 2, instances = [sample ''g1'', sample ''g1''] \<rparr>)]"
proof -
  define obj where "obj = node [(''speckle_type'', PStr ''Objects.Geometry.Mesh''),
                   (''elements'', PList [PRef 1])]"
  have h0: "mesh_heap 0 = Some obj"
    by (simp add: mesh_heap_def obj_def)
  have ty: "py_getattr obj ''speckle_type'' = Some (PStr ''Objects.Geometry.Mesh'')"
    by (simp add: obj_def node_def py_getattr_def)
  have e: "extract_ifc_types mesh_heap (PRef 0) [] 10 0 =
       Inr [(PStr ''Wall'', \<lparr> count = 2, instances = [sample ''g1'', sample ''g1''] \<rparr>)]"
    by code_simp
  have le: "(0::int) \<le> 10" by simp
  from mesh_skipped_children_visited [where h = mesh_heap and a = 0 and t = "[]"
      and d = 0 and m = 10, OF h0 ty] le e
  show ?thesis unfolding obj_def by simp
qed

section \<open>Successive calls\<close>

lemma store_dict_simps:
  "objects (store_dict s r t) = objects s"
  "dicts (store_dict s r t) r = t"
  "r' \<noteq> r \<Longrightarrow> dicts (store_dict s r t) r' = dicts s r'"
  "next_id (store_dict s r t) = next_id s"
  "store_dict (store_dict s r t1) r t2 = store_dict s r t2"
  "store_dict s r (dicts s r) = s"
  by (simp_all add: store_dict_def)

lemma extract_in_place_pure:
  "extract_in_place s data r m d =
     (case extract_ifc_types (objects s) data (dicts s r) m d of
        Inl e \<Rightarrow> Inl e
      | Inr t \<Rightarrow> Inr (store_dict s r t))"
  "extract_each_in_place s xs r m d =
     (case extract_each (objects s) xs (dicts s r) m d of
        Inl e \<Rightarrow> Inl e
      | Inr t \<Rightarrow> Inr (store_dict s r t))"
  "extract_collections_in_place s kvs r m d =
     (case extract_collections (objects s) kvs (dicts s r) m d of
        Inl e \<Rightarrow> Inl e
      | Inr t \<Rightarrow> Inr (store_dict s r t))"
proof (induction s data r m d and s xs r m d and s kvs r m d
    rule: extract_in_place_extract_each_in_place_extract_collections_in_place.induct)
  case (1 s data r m d)
  show ?case
  proof (cases "m < d")
    case True
    then show ?thesis
      by (simp add: extract_in_place.simps extract_beyond_depth store_dict_simps)
  next
    case deep: False
    show ?thesis
    proof (cases "has_dict (objects s) data")
      case False
      then show ?thesis
        by (cases data) (simp_all add: extract_in_place.simps extract_no_dict store_dict_simps)
    next
      case True
      then obtain a obj where data: "data = PRef a" and obj: "objects s a = Some obj"
        by (cases data) auto
      from deep have le: "d \<le> m" by simp
      note pure = extract_object [where h = "objects s" and a = a, OF le obj]
      show ?thesis
      proof (cases "classify obj (dicts s r)")
        case (Inl e)
        with deep obj show ?thesis
          unfolding data pure by (simp add: extract_in_place.simps classify_in_place_def)
      next
        case c: (Inr t1)
        define s1 where "s1 = store_dict s r t1"
        have cst: "classify_in_place obj r s = Inr s1"
          using c by (simp add: classify_in_place_def s1_def)
        have s1: "objects s1 = objects s" "dicts s1 r = t1"
          "\<And>t. store_dict s1 r t = store_dict s r t"
          by (simp_all add: s1_def store_dict_simps)
        define E where "E = (case py_getattr obj ''elements'' of
              None \<Rightarrow> Inr t1
            | Some elements \<Rightarrow>
                if truthy elements then
                  (case py_iter elements of
                     Inl e \<Rightarrow> Inl e
                   | Inr items \<Rightarrow> extract_each (objects s) items t1 m (d + 1))
                else Inr t1)"
        have est: "(case py_getattr obj ''elements'' of
              None \<Rightarrow> Inr s1
            | Some elements \<Rightarrow>
                if truthy elements then
                  (case py_iter elements of
                     Inl e \<Rightarrow> Inl e
                   | Inr items \<Rightarrow> extract_each_in_place s1 items r m (d + 1))
                else Inr s1)
              = (case E of Inl e \<Rightarrow> Inl e
                 | Inr t \<Rightarrow> Inr (store_dict s r t))"
        proof (cases "py_getattr obj ''elements''")
          case None
          then show ?thesis by (simp add: E_def s1_def)
        next
          case (Some es)
          show ?thesis
          proof (cases "truthy es")
            case False
            with Some show ?thesis by (simp add: E_def s1_def)
          next
            case True
            show ?thesis
            proof (cases "py_iter es")
              case (Inl e)
              with Some True show ?thesis by (simp add: E_def)
            next
              case (Inr items)
              from "1.IH"(1) [OF deep data obj cst Some True Inr]
              show ?thesis using Some True Inr by (simp add: E_def s1 split: sum.split)
            qed
          qed
        qed
        have lhs: "extract_in_place s (PRef a) r m d =
                (case (case E of Inl e \<Rightarrow> Inl e
                       | Inr t \<Rightarrow> Inr (store_dict s r t)) of
                   Inl e \<Rightarrow> Inl e
                 | Inr s2 \<Rightarrow> extract_collections_in_place s2 (inst_dict obj) r m (d + 1))"
          using deep obj cst est by (simp add: extract_in_place.simps)
        have rhs: "extract_ifc_types (objects s) (PRef a) (dicts s r) m d =
                (case E of Inl e \<Rightarrow> Inl e
                 | Inr t2 \<Rightarrow> extract_collections (objects s) (inst_dict obj) t2 m (d + 1))"
          unfolding pure using c by (simp add: visit_children_def E_def)
        show ?thesis
        proof (cases E)
          case (Inl e)
          then show ?thesis unfolding data lhs rhs by simp
        next
          case (Inr t2)
          define s2 where "s2 = store_dict s r t2"
          have e2: "(case py_getattr obj ''elements'' of
              None \<Rightarrow> Inr s1
            | Some elements \<Rightarrow>
                if truthy elements then
                  (case py_iter elements of
                     Inl e \<Rightarrow> Inl e
                   | Inr items \<Rightarrow> extract_each_in_place s1 items r m (d + 1))
                else Inr s1) = Inr s2"
            unfolding est using Inr by (simp add: s2_def)
          have s2: "objects s2 = objects s" "dicts s2 r = t2"
            "\<And>t. store_dict s2 r t = store_dict s r t"
            by (simp_all add: s2_def store_dict_simps)
          from "1.IH"(2) [OF deep data obj cst e2]
          have ih: "extract_collections_in_place s2 (inst_dict obj) r m (d + 1) =
                (case extract_collections (objects s) (inst_dict obj) t2 m (d + 1) of
                   Inl e \<Rightarrow> Inl e
                 | Inr t \<Rightarrow> Inr (store_dict s r t))"
            by (simp add: s2 split: sum.split)
          show ?thesis
            unfolding data lhs rhs Inr using ih [unfolded s2_def] by simp
        qed
      qed
    qed
  qed
next
  case (2 s r m d)
  then show ?case by (simp add: store_dict_simps)
next
  case (3 s element rest r m d)
  show ?case
  proof (cases "extract_ifc_types (objects s) element (dicts s r) m d")
    case (Inl e)
    with "3.IH"(1) show ?thesis by simp
  next
    case (Inr t1)
    define s1 where "s1 = store_dict s r t1"
    from "3.IH"(1) Inr have a: "extract_in_place s element r m d = Inr s1"
      by (simp add: s1_def)
    have s1: "objects s1 = objects s" "dicts s1 r = t1"
      "\<And>t. store_dict s1 r t = store_dict s r t"
      by (simp_all add: s1_def store_dict_simps)
    from "3.IH"(2) [OF a] a Inr show ?thesis by (simp add: s1 split: sum.split)
  qed
next
  case (4 s r m d)
  then show ?case by (simp add: store_dict_simps)
next
  case (5 s attr_name attr_value rest r m d)
  show ?case
  proof (cases "\<not> starts_underscore attr_name \<and> is_list attr_value")
    case True
    show ?thesis
    proof (cases "extract_each (objects s) (filter (has_dict (objects s)) (list_items attr_value))
                    (dicts s r) m d")
      case (Inl e)
      with "5.IH"(1) [OF True] True show ?thesis by simp
    next
      case (Inr t1)
      define s1 where "s1 = store_dict s r t1"
      from "5.IH"(1) [OF True] Inr
      have a: "extract_each_in_place s (filter (has_dict (objects s)) (list_items attr_value))
                 r m d = Inr s1"
        by (simp add: s1_def)
      have s1: "objects s1 = objects s" "dicts s1 r = t1"
        "\<And>t. store_dict s1 r t = store_dict s r t"
        by (simp_all add: s1_def store_dict_simps)
      from "5.IH"(2) [OF True a] a Inr True show ?thesis by (simp add: s1 split: sum.split)
    qed
  next
    case False
    from "5.IH"(3) [OF False] False show ?thesis by auto
  qed
qed

lemma method_fresh:
  "extract_ifc_types_method s data None m d =
     (case extract_ifc_types (objects s) data [] m d of
        Inl e \<Rightarrow> Inl e
      | Inr t \<Rightarrow> Inr (next_id s, store_dict (snd (new_dict s)) (next_id s) t))"
  by (simp add: extract_ifc_types_method_def new_dict_def extract_in_place_pure(1)
      split: sum.split)

lemma method_given:
  "extract_ifc_types_method s data (Some r) m d =
     (case extract_ifc_types (objects s) data (dicts s r) m d of
        Inl e \<Rightarrow> Inl e
      | Inr t \<Rightarrow> Inr (r, store_dict s r t))"
  by (simp add: extract_ifc_types_method_def extract_in_place_pure(1) split: sum.split)

text \<open>
  C7. When a call with the default \<^verbatim>\<open>ifc_types=None\<close> returns, a second such call
  on the same root, run in the state the first has left, returns too. It
  returns another dict with the same contents (the same keys in the same
  order, each with the same count and the same samples in the same order), the
  dict of the first call is as the first call left it, no other dict is
  touched, and the graph is as it was before the first call. This holds for
  every graph, acyclic or not.
\<close>

theorem successive_calls_agree:
  "extract_ifc_types_method s data None max_depth 0 = Inr (r1, s1) \<longrightarrow>
     (\<exists>r2 s2. extract_ifc_types_method s1 data None max_depth 0 = Inr (r2, s2)
        \<and> two_calls s data max_depth = Inr (r1, r2, s2)
        \<and> r2 \<noteq> r1
        \<and> dicts s2 r2 = dicts s1 r1
        \<and> dicts s2 r1 = dicts s1 r1
        \<and> (\<forall>r. r \<noteq> r1 \<and> r \<noteq> r2 \<longrightarrow> dicts s2 r = dicts s r)
        \<and> objects s1 = objects s \<and> objects s2 = objects s)"
proof
  assume first: "extract_ifc_types_method s data None max_depth 0 = Inr (r1, s1)"
  then obtain t where pure: "extract_ifc_types (objects s) data [] max_depth 0 = Inr t"
    and r1: "r1 = next_id s"
    and s1: "s1 = store_dict (snd (new_dict s)) (next_id s) t"
    unfolding method_fresh by (cases "extract_ifc_types (objects s) data [] max_depth 0") auto
  have o1: "objects s1 = objects s" and n1: "next_id s1 = Suc (next_id s)"
    and d1: "dicts s1 r1 = t"
    and f1: "\<And>r. r \<noteq> r1 \<Longrightarrow> dicts s1 r = dicts s r"
    by (simp_all add: s1 r1 store_dict_def new_dict_def)
  define s2 where "s2 = store_dict (snd (new_dict s1)) (next_id s1) t"
  have second: "extract_ifc_types_method s1 data None max_depth 0 = Inr (Suc r1, s2)"
    unfolding method_fresh using pure by (simp add: o1 n1 r1 s2_def)
  have o2: "objects s2 = objects s" and d2: "dicts s2 (Suc r1) = t"
    and d21: "dicts s2 r1 = dicts s1 r1"
    and f2: "\<And>r. r \<noteq> Suc r1 \<Longrightarrow> dicts s2 r = dicts s1 r"
    by (simp_all add: s2_def store_dict_def new_dict_def o1 n1 r1)
  have "two_calls s data max_depth = Inr (r1, Suc r1, s2)"
    by (simp add: two_calls_def first second)
  with second o1 o2 d1 d2 d21 f1 f2
  show "\<exists>r2 s2. extract_ifc_types_method s1 data None max_depth 0 = Inr (r2, s2)
        \<and> two_calls s data max_depth = Inr (r1, r2, s2)
        \<and> r2 \<noteq> r1
        \<and> dicts s2 r2 = dicts s1 r1
        \<and> dicts s2 r1 = dicts s1 r1
        \<and> (\<forall>r. r \<noteq> r1 \<and> r \<noteq> r2 \<longrightarrow> dicts s2 r = dicts s r)
        \<and> objects s1 = objects s \<and> objects s2 = objects s"
    by (intro exI [of _ "Suc r1"] exI [of _ s2]) simp
qed

theorem successive_calls_agree_witness:
  "\<exists>s1 r2 s2 s3.
      extract_ifc_types_method scenario_state (PRef 0) None 10 0 = Inr (0, s1)
    \<and> extract_ifc_types_method s1 (PRef 0) None 10 0 = Inr (r2, s2)
    \<and> r2 \<noteq> 0
    \<and> dicts s2 0 =
        [(PStr ''Wall'', \<lparr> count = 6, instances =
            [sample ''g1'', sample ''g3'', sample ''g3'',
             sample ''g1'', sample ''g3'', sample ''g3''] \<rparr>),
         (PStr ''Door'', \<lparr> count = 2, instances = [sample ''g2'', sample ''g2''] \<rparr>)]
    \<and> dicts s2 r2 = dicts s2 0
    \<and> extract_ifc_types_method s1 (PRef 0) (Some 0) 10 0 = Inr (0, s3)
    \<and> map (\<lambda>kb. (fst kb, count (snd kb))) (dicts s3 0) =
        [(PStr ''Wall'', 12), (PStr ''Door'', 4)]"
proof -
  define R where "R = [(PStr ''Wall'', \<lparr> count = 6, instances =
            [sample ''g1'', sample ''g3'', sample ''g3'',
             sample ''g1'', sample ''g3'', sample ''g3''] \<rparr>),
         (PStr ''Door'', \<lparr> count = 2, instances = [sample ''g2'', sample ''g2''] \<rparr>)]"
  define R2 where "R2 = [(PStr ''Wall'', \<lparr> count = 12, instances =
            [sample ''g1'', sample ''g3'', sample ''g3'',
             sample ''g1'', sample ''g3'', sample ''g3'',
             sample ''g1'', sample ''g3'', sample ''g3'',
             sample ''g1'', sample ''g3'', sample ''g3''] \<rparr>),
         (PStr ''Door'', \<lparr> count = 4, instances =
            [sample ''g2'', sample ''g2'', sample ''g2'', sample ''g2''] \<rparr>)]"
  define s1 where "s1 = store_dict (snd (new_dict scenario_state)) 0 R"
  define s3 where "s3 = store_dict s1 0 R2"
  have e: "extract_ifc_types scenario_heap (PRef 0) [] 10 0 = Inr R"
    unfolding R_def by code_simp
  have e2: "extract_ifc_types scenario_heap (PRef 0) R 10 0 = Inr R2"
    unfolding R_def R2_def by code_simp
  have first: "extract_ifc_types_method scenario_state (PRef 0) None 10 0 = Inr (0, s1)"
    unfolding method_fresh using e by (simp add: scenario_state_def s1_def)
  have o1: "objects s1 = scenario_heap" and d1: "dicts s1 0 = R"
    by (simp_all add: s1_def store_dict_def new_dict_def scenario_state_def)
  have third: "extract_ifc_types_method s1 (PRef 0) (Some 0) 10 0 = Inr (0, s3)"
    unfolding method_given using e2 by (simp add: o1 d1 s3_def)
  have d3: "map (\<lambda>kb. (fst kb, count (snd kb))) (dicts s3 0) =
        [(PStr ''Wall'', 12), (PStr ''Door'', 4)]"
    by (simp add: s3_def store_dict_def R2_def)
  from successive_calls_agree [of scenario_state "PRef 0" 10 0 s1] first
  obtain r2 s2 where "extract_ifc_types_method s1 (PRef 0) None 10 0 = Inr (r2, s2)"
    and "r2 \<noteq> 0" and "dicts s2 r2 = dicts s1 0" and "dicts s2 0 = dicts s1 0"
    by blast
  with first third d3 d1 show ?thesis
    unfolding R_def by (intro exI [of _ s1] exI [of _ r2] exI [of _ s2] exI [of _ s3]) simp
qed

section \<open>What the loops pass over\<close>

lemma has_dict_agree:
  "agree_on S h h' \<Longrightarrow> (\<And>b. x = PRef b \<Longrightarrow> b \<in> S) \<Longrightarrow> has_dict h' x = has_dict h x"
  by (cases x) (auto simp: agree_on_def)

lemma filter_has_dict_agree:
  assumes "agree_on S h h'" and "\<And>b. PRef b \<in> set xs \<Longrightarrow> b \<in> S"
  shows "filter (has_dict h') xs = filter (has_dict h) xs"
proof (rule filter_cong [OF refl])
  fix x
  assume "x \<in> set xs"
  then have "b \<in> S" if "x = PRef b" for b
    using assms(2) that by blast
  from has_dict_agree [OF assms(1) this] show "has_dict h' x = has_dict h x" .
qed

lemma walked_elements:
  "x \<in> set (element_items obj) \<Longrightarrow> x \<in> set (walked obj)"
  by (simp add: walked_def)

lemma walked_collection:
  "(n, PList xs) \<in> set (inst_dict obj) \<Longrightarrow> \<not> starts_underscore n \<Longrightarrow> x \<in> set xs \<Longrightarrow>
   x \<in> set (walked obj)"
  by (force simp: walked_def)

lemma extract_agree:
  assumes ag: "agree_on S h h'" and cl: "closed_under_walk h S"
  shows "(\<And>b. data = PRef b \<Longrightarrow> b \<in> S) \<Longrightarrow>
         extract_ifc_types h' data t m d = extract_ifc_types h data t m d"
    and "(\<And>b. PRef b \<in> set xs \<Longrightarrow> b \<in> S) \<Longrightarrow>
         extract_each h' xs t m d = extract_each h xs t m d"
    and "(\<And>n ys b. (n, PList ys) \<in> set kvs \<Longrightarrow> \<not> starts_underscore n \<Longrightarrow>
                 PRef b \<in> set ys \<Longrightarrow> b \<in> S) \<Longrightarrow>
         extract_collections h' kvs t m d = extract_collections h kvs t m d"
  using ag cl
proof (induction h data t m d and h xs t m d and h kvs t m d
    rule: extract_ifc_types_extract_each_extract_collections.induct)
  case (1 h data t m d)
  note ag = "1.prems"(2) and cl = "1.prems"(3)
  show ?case
  proof (cases "m < d")
    case True
    then show ?thesis by (simp add: extract_beyond_depth)
  next
    case deep: False
    have hd: "has_dict h' data = has_dict h data"
      using has_dict_agree [OF ag] "1.prems"(1) by blast
    show ?thesis
    proof (cases "has_dict h data")
      case False
      with hd show ?thesis by (simp add: extract_no_dict)
    next
      case True
      then obtain a obj where data: "data = PRef a" and obj: "h a = Some obj"
        by (cases data) auto
      from "1.prems"(1) data have aS: "a \<in> S" by simp
      with ag obj have obj': "h' a = Some obj" by (simp add: agree_on_def)
      from deep have le: "d \<le> m" by simp
      note lhs = extract_object [where h = h' and a = a, OF le obj']
      note rhs = extract_object [where h = h and a = a, OF le obj]
      have inS: "b \<in> S" if "PRef b \<in> set (walked obj)" for b
        using cl aS obj that unfolding closed_under_walk_def by blast
      show ?thesis
      proof (cases "classify obj t")
        case (Inl e)
        then show ?thesis unfolding data lhs rhs by simp
      next
        case c: (Inr t1)
        have es: "(case py_getattr obj ''elements'' of
                     None \<Rightarrow> Inr t1
                   | Some elements \<Rightarrow>
                       if truthy elements then
                         (case py_iter elements of
                            Inl e \<Rightarrow> Inl e
                          | Inr items \<Rightarrow> extract_each h' items t1 m (d + 1))
                       else Inr t1)
                = (case py_getattr obj ''elements'' of
                     None \<Rightarrow> Inr t1
                   | Some elements \<Rightarrow>
                       if truthy elements then
                         (case py_iter elements of
                            Inl e \<Rightarrow> Inl e
                          | Inr items \<Rightarrow> extract_each h items t1 m (d + 1))
                       else Inr t1)"
        proof (cases "py_getattr obj ''elements''")
          case None
          then show ?thesis by simp
        next
          case (Some es)
          show ?thesis
          proof (cases "truthy es")
            case False
            with Some show ?thesis by simp
          next
            case True
            show ?thesis
            proof (cases "py_iter es")
              case (Inl e)
              with Some True show ?thesis by simp
            next
              case (Inr items)
              have "element_items obj = items"
                using Some True Inr by (simp add: element_items_def)
              then have "b \<in> S" if "PRef b \<in> set items" for b
                using that inS walked_elements by blast
              from "1.IH"(1) [OF deep data obj c Some True Inr this ag cl]
              show ?thesis using Some True Inr by simp
            qed
          qed
        qed
        have "visit_children h' obj t1 m d = visit_children h obj t1 m d"
        proof (cases "case py_getattr obj ''elements'' of
                     None \<Rightarrow> Inr t1
                   | Some elements \<Rightarrow>
                       if truthy elements then
                         (case py_iter elements of
                            Inl e \<Rightarrow> Inl e
                          | Inr items \<Rightarrow> extract_each h items t1 m (d + 1))
                       else Inr t1")
          case (Inl e)
          then show ?thesis unfolding visit_children_def es by simp
        next
          case (Inr t2)
          have "b \<in> S" if "(n, PList ys) \<in> set (inst_dict obj)" "\<not> starts_underscore n"
            "PRef b \<in> set ys" for n ys b
            using that inS walked_collection by blast
          from "1.IH"(2) [OF deep data obj c Inr this ag cl] Inr
          show ?thesis unfolding visit_children_def es by simp
        qed
        with c show ?thesis unfolding data lhs rhs by simp
      qed
    qed
  qed
next
  case (2 h t m d)
  then show ?case by simp
next
  case (3 h element rest t m d)
  have a: "extract_ifc_types h' element t m d = extract_ifc_types h element t m d"
    using "3.IH"(1) "3.prems" by simp
  show ?case
  proof (cases "extract_ifc_types h element t m d")
    case (Inl e)
    with a show ?thesis by simp
  next
    case (Inr t1)
    have "extract_each h' rest t1 m d = extract_each h rest t1 m d"
      using "3.IH"(2) [OF Inr] "3.prems" by simp
    with a Inr show ?thesis by simp
  qed
next
  case (4 h t m d)
  then show ?case by simp
next
  case (5 h attr_name attr_value rest t m d)
  note ag = "5.prems"(2) and cl = "5.prems"(3)
  have rest: "b \<in> S" if "(n, PList ys) \<in> set rest" "\<not> starts_underscore n" "PRef b \<in> set ys"
    for n ys b
    using "5.prems"(1) [of n ys b] that by simp
  show ?case
  proof (cases "\<not> starts_underscore attr_name \<and> is_list attr_value")
    case True
    then obtain ys where v: "attr_value = PList ys" by (cases attr_value) auto
    have items: "b \<in> S" if "PRef b \<in> set ys" for b
      using "5.prems"(1) [of attr_name ys b] True that by (simp add: v)
    then have inS: "b \<in> S" if "PRef b \<in> set (filter (has_dict h) (list_items attr_value))" for b
      using that by (simp add: v)
    have f: "filter (has_dict h') (list_items attr_value) =
             filter (has_dict h) (list_items attr_value)"
      using filter_has_dict_agree [OF ag, of ys] items by (simp add: v)
    have a: "extract_each h' (filter (has_dict h) (list_items attr_value)) t m d =
             extract_each h (filter (has_dict h) (list_items attr_value)) t m d"
      using "5.IH"(1) [OF True inS ag cl] by simp
    show ?thesis
    proof (cases "extract_each h (filter (has_dict h) (list_items attr_value)) t m d")
      case (Inl e)
      with a f True show ?thesis by simp
    next
      case (Inr t1)
      have "extract_collections h' rest t1 m d = extract_collections h rest t1 m d"
        using "5.IH"(2) [OF True Inr rest ag cl] by simp
      with a f True Inr show ?thesis by simp
    qed
  next
    case False
    have "extract_collections h' rest t m d = extract_collections h rest t m d"
      using "5.IH"(3) [OF False rest ag cl] by simp
    with False show ?thesis by auto
  qed
qed

lemma collection_items_walked:
  "x \<in> set (collection_items h kvs) \<Longrightarrow>
   \<exists>n ys. (n, PList ys) \<in> set kvs \<and> \<not> starts_underscore n \<and> x \<in> set ys"
proof (induction kvs)
  case Nil
  then show ?case by simp
next
  case (Cons kv kvs)
  obtain n v where kv: "kv = (n, v)" by (cases kv)
  show ?case
  proof (cases "x \<in> set (collection_items h kvs)")
    case True
    with Cons.IH show ?thesis by auto
  next
    case False
    with Cons.prems have a: "\<not> starts_underscore n" "is_list v"
      and b: "x \<in> set (list_items v)"
      by (auto simp: kv split: if_splits)
    from a(2) obtain ys where "v = PList ys" by (cases v) auto
    with a b show ?thesis by (auto simp: kv)
  qed
qed

lemma children_walked:
  assumes "h a = Some obj" and "x \<in> set (children h (PRef a))"
  shows "x \<in> set (walked obj)"
proof -
  from assms have "x \<in> set (element_items obj) \<or> x \<in> set (collection_items h (inst_dict obj))"
    by (simp add: children_def)
  then show ?thesis
  proof
    assume "x \<in> set (element_items obj)"
    then show ?thesis by (rule walked_elements)
  next
    assume "x \<in> set (collection_items h (inst_dict obj))"
    from collection_items_walked [OF this] show ?thesis
      using walked_collection by blast
  qed
qed

lemma at_depth_closed:
  assumes cl: "closed_under_walk h S"
  shows "(\<And>a. v = PRef a \<Longrightarrow> a \<in> S) \<Longrightarrow> PRef b \<in> at_depth h k v \<Longrightarrow> b \<in> S"
proof (induction k arbitrary: v)
  case 0
  then show ?case by simp
next
  case (Suc k)
  from Suc.prems(2) obtain c where c: "c \<in> set (children h v)"
    and b: "PRef b \<in> at_depth h k c"
    by auto
  have "\<exists>a obj. v = PRef a \<and> h a = Some obj"
  proof (cases v)
    case (PRef a)
    with c show ?thesis by (cases "h a") (simp_all add: children_def)
  qed (use c in \<open>simp_all add: children_def\<close>)
  then obtain a obj where v: "v = PRef a" and obj: "h a = Some obj" by blast
  from Suc.prems(1) v have aS: "a \<in> S" by simp
  from children_walked [where h = h and a = a, OF obj] c v
  have w: "c \<in> set (walked obj)" by simp
  have "a' \<in> S" if "c = PRef a'" for a'
    using cl aS obj w that unfolding closed_under_walk_def by blast
  from Suc.IH [OF this b] show ?case .
qed

lemma entries_within_closed:
  assumes cl: "closed_under_walk h S" and aS: "a \<in> S"
  shows "entries_within h (PRef a) n \<subseteq> (\<Union>b \<in> S. entries_at h (PRef b))"
proof
  fix e
  assume "e \<in> entries_within h (PRef a) n"
  then obtain k w where w: "w \<in> at_depth h k (PRef a)" and e: "e \<in> entries_at h w"
    by (auto simp: entries_within_def split: if_splits)
  from e obtain b where wb: "w = PRef b"
    by (cases w) (auto simp: entries_at_def)
  from at_depth_closed [OF cl _ w [unfolded wb]] aS have "b \<in> S" by simp
  with e wb show "e \<in> (\<Union>b \<in> S. entries_at h (PRef b))" by blast
qed

lemma extract_collections_filter:
  "extract_collections h kvs t m d =
   extract_collections h
     (filter (\<lambda>kv. \<not> starts_underscore (fst kv) \<and> is_list (snd kv)) kvs) t m d"
proof (induction kvs arbitrary: t)
  case Nil
  then show ?case by simp
next
  case (Cons kv kvs)
  obtain n v where kv: "kv = (n, v)" by (cases kv)
  show ?case
  proof (cases "\<not> starts_underscore n \<and> is_list v")
    case True
    show ?thesis
    proof (cases "extract_each h (filter (has_dict h) (list_items v)) t m d")
      case (Inl e)
      with True show ?thesis by (simp add: kv)
    next
      case (Inr t1)
      with True Cons.IH [of t1] show ?thesis by (simp add: kv)
    qed
  next
    case False
    with Cons.IH [of t] show ?thesis by (auto simp: kv)
  qed
qed

text \<open>
  C10, as stated, fails: the loop over \<^verbatim>\<open>elements\<close> takes any iterable, so a Wall
  held only in a tuple-valued \<^verbatim>\<open>elements\<close> is classified, and taking it away
  changes the aggregation.
\<close>

theorem tuple_elements_classified:
  "tuple_heap 0 = Some (node [(''elements'', PTuple [PRef 1])])
   \<and> \<not> is_list (PTuple [PRef 1])
   \<and> extract_ifc_types_call tuple_heap (PRef 0) None 10 0 =
       Inr [(PStr ''Wall'', \<lparr> count = 1, instances = [sample ''g1''] \<rparr>)]
   \<and> extract_ifc_types_call (tuple_heap(1 := None)) (PRef 0) None 10 0 = Inr []"
proof -
  have a: "tuple_heap 0 = Some (node [(''elements'', PTuple [PRef 1])])"
    by (simp add: tuple_heap_def)
  have b: "extract_ifc_types_call tuple_heap (PRef 0) None 10 0 =
       Inr [(PStr ''Wall'', \<lparr> count = 1, instances = [sample ''g1''] \<rparr>)]"
    by code_simp
  have c: "extract_ifc_types_call (tuple_heap(1 := None)) (PRef 0) None 10 0 = Inr []"
    by code_simp
  from a b c show ?thesis by simp
qed

text \<open>
  C10, amended. The loop over \<^verbatim>\<open>__dict__\<close> goes into an attribute only when its
  name has no leading underscore and its value is a list, and into an item
  only when the item has a \<^verbatim>\<open>__dict__\<close>; the loop over \<^verbatim>\<open>elements\<close> goes into
  every item, whatever the type of \<^verbatim>\<open>elements\<close>. Objects that neither loop
  reaches (those held only under underscore-prefixed attributes, or in values
  other than lists under attributes other than \<^verbatim>\<open>elements\<close>) do not matter:
  on a set of addresses closed under the two loops, changing the store
  outside the set changes neither the aggregation nor an error, and every
  entry the traversal adds belongs to an object of the set.
\<close>

theorem only_walked_objects_matter:
  assumes "closed_under_walk h S" and "a \<in> S"
  shows "(agree_on S h h' \<longrightarrow>
            extract_ifc_types h' (PRef a) t m d = extract_ifc_types h (PRef a) t m d)
    \<and> (extract_ifc_types h (PRef a) t m d = Inr t' \<longrightarrow>
          agg_entries t' \<subseteq> agg_entries t \<union> (\<Union>b \<in> S. entries_at h (PRef b)))
    \<and> extract_collections h kvs t m d =
        extract_collections h
          (filter (\<lambda>kv. \<not> starts_underscore (fst kv) \<and> is_list (snd kv)) kvs) t m d
    \<and> extract_collections h [(name, PList xs)] t m d =
        extract_collections h [(name, PList (filter (has_dict h) xs))] t m d"
proof (intro conjI impI)
  assume ag: "agree_on S h h'"
  show "extract_ifc_types h' (PRef a) t m d = extract_ifc_types h (PRef a) t m d"
    by (rule extract_agree(1) [OF ag assms(1)]) (simp add: assms(2))
next
  assume r: "extract_ifc_types h (PRef a) t m d = Inr t'"
  from extract_entries(1) [OF r] entries_within_closed [OF assms, of "m - d"]
  show "agg_entries t' \<subseteq> agg_entries t \<union> (\<Union>b \<in> S. entries_at h (PRef b))"
    by auto
next
  show "extract_collections h kvs t m d =
        extract_collections h
          (filter (\<lambda>kv. \<not> starts_underscore (fst kv) \<and> is_list (snd kv)) kvs) t m d"
    by (rule extract_collections_filter)
next
  show "extract_collections h [(name, PList xs)] t m d =
        extract_collections h [(name, PList (filter (has_dict h) xs))] t m d"
    by simp
qed

lemma hidden_closed: "closed_under_walk hidden_heap {0, 3, 9}"
  unfolding closed_under_walk_def
proof (intro allI impI)
  fix a obj b
  assume p: "a \<in> {0, 3, 9} \<and> hidden_heap a = Some obj \<and> PRef b \<in> set (walked obj)"
  have w0: "\<exists>obj. hidden_heap 0 = Some obj \<and> walked obj = [PStr ''x'', PRef 3, PRef 9]"
    by (simp add: hidden_heap_def node_def walked_def element_items_def py_getattr_def)
  have w3: "\<exists>obj. hidden_heap 3 = Some obj \<and> walked obj = []"
    by (auto simp: hidden_heap_def node_def walked_def element_items_def py_getattr_def)
  have w9: "hidden_heap 9 = None"
    by (simp add: hidden_heap_def)
  from p consider "a = 0" | "a = 3" | "a = 9" by auto
  then show "b \<in> {0, 3, 9}"
  proof cases
    case 1
    with p w0 show ?thesis by auto
  next
    case 2
    with p w3 show ?thesis by auto
  next
    case 3
    with p w9 show ?thesis by simp
  qed
qed

lemma hidden_agree: "agree_on {0, 3, 9} hidden_heap hidden_heap_changed"
  by (simp add: agree_on_def hidden_heap_changed_def)

theorem only_walked_objects_matter_witness:
  "closed_under_walk hidden_heap {0, 3, 9}
   \<and> agree_on {0, 3, 9} hidden_heap hidden_heap_changed
   \<and> hidden_heap 1 \<noteq> hidden_heap_changed 1
   \<and> hidden_heap 2 \<noteq> hidden_heap_changed 2
   \<and> extract_ifc_types hidden_heap (PRef 0) [] 10 0 =
       Inr [(PStr ''Wall'', \<lparr> count = 2, instances = [sample ''g0'', sample ''g3''] \<rparr>)]
   \<and> extract_ifc_types hidden_heap_changed (PRef 0) [] 10 0 =
       Inr [(PStr ''Wall'', \<lparr> count = 2, instances = [sample ''g0'', sample ''g3''] \<rparr>)]"
proof -
  have e: "extract_ifc_types hidden_heap (PRef 0) [] 10 0 =
       Inr [(PStr ''Wall'', \<lparr> count = 2, instances = [sample ''g0'', sample ''g3''] \<rparr>)]"
    by code_simp
  have n1: "hidden_heap 1 \<noteq> hidden_heap_changed 1"
    by (simp add: hidden_heap_changed_def hidden_heap_def)
  have n2: "hidden_heap 2 \<noteq> hidden_heap_changed 2"
    by (simp add: hidden_heap_changed_def hidden_heap_def node_def)
  have z: "(0::nat) \<in> {0, 3, 9}" by simp
  from only_walked_objects_matter [OF hidden_closed z, of hidden_heap_changed "[]" 10 0]
    hidden_agree
  have "extract_ifc_types hidden_heap_changed (PRef 0) [] 10 0 =
        extract_ifc_types hidden_heap (PRef 0) [] 10 0"
    by blast
  with e n1 n2 hidden_closed hidden_agree show ?thesis by simp
qed

end
